theory Spec2Isabelle
  imports Main
begin

section \<open>JavaScript values and objects\<close>

text \<open>
  The build script works on what \<^verbatim>\<open>JSON.parse\<close> returns, on object literals of its own and,
  at one call site, on \<^verbatim>\<open>undefined\<close>. A value is one of the seven kinds below. Numbers are
  leaves that the script only copies and prints, never computes with; they are integers here,
  of a magnitude below \<^verbatim>\<open>2 ** 53\<close>, which a JavaScript number holds exactly and
  \<^verbatim>\<open>JSON.stringify\<close> prints digit by digit.
  Strings are lists of characters, one \<^typ>\<open>char\<close> per code unit.

  An object is the list of its own enumerable properties in the order in which
  \<^verbatim>\<open>for ... in\<close>, \<^verbatim>\<open>Object.keys\<close>, \<^verbatim>\<open>Object.entries\<close> and \<^verbatim>\<open>JSON.stringify\<close> visit them:
  array indices first, in ascending numeric order, then the other keys in the order of their
  creation.

  Scope of the embedding: property reads are own-property reads. Keys that name a member of
  \<^verbatim>\<open>Object.prototype\<close> (\<^verbatim>\<open>__proto__\<close>, \<^verbatim>\<open>constructor\<close>, \<^verbatim>\<open>hasOwnProperty\<close>, ...) reach the
  prototype in JavaScript. The deep merge is embedded with what these keys do to it, the
  key \<^verbatim>\<open>__proto__\<close> apart; for the pivot they are outside the scope. \<open>json_val\<close> below marks
  the values free of them.
\<close>

datatype jsval =
    JUndefined
  | JNull
  | JBool bool
  | JNum int
  | JStr string
  | JArr "jsval list"
  | JObj "(string \<times> jsval) list"

type_synonym jsobj = "(string \<times> jsval) list"

subsection \<open>Decimal numerals\<close>

definition digit_char :: "nat \<Rightarrow> char" where
  "digit_char d = ''0123456789'' ! (d mod 10)"

definition digit_val :: "char \<Rightarrow> int" where
  "digit_val c = (of_char c :: int) - of_char (CHR ''0'')"

definition is_digit :: "char \<Rightarrow> bool" where
  "is_digit c = (of_char (CHR ''0'') \<le> (of_char c :: nat) \<and> (of_char c :: nat) \<le> of_char (CHR ''9''))"

text \<open>\<^verbatim>\<open>String(n)\<close> and \<^verbatim>\<open>n.toString()\<close> for a non-negative integer.\<close>

fun string_of_nat :: "nat \<Rightarrow> string" where
  "string_of_nat n =
     (if n < 10 then [digit_char n]
      else string_of_nat (n div 10) @ [digit_char (n mod 10)])"

declare string_of_nat.simps [simp del]

text \<open>The number that a string of decimal digits denotes.\<close>

definition index_value :: "string \<Rightarrow> int" where
  "index_value s = foldl (\<lambda>acc c. 10 * acc + digit_val c) 0 s"

definition string_of_int :: "int \<Rightarrow> string" where
  "string_of_int i = (if i < 0 then CHR ''-'' # string_of_nat (nat (- i)) else string_of_nat (nat i))"

text \<open>
  An array index is a canonical numeric string below \<open>2^32 - 1\<close>: decimal digits, no leading
  zero unless the string is \<^verbatim>\<open>0\<close> itself.
\<close>

definition is_array_index :: "string \<Rightarrow> bool" where
  "is_array_index s =
     (s \<noteq> [] \<and> list_all is_digit s \<and> (length s = 1 \<or> hd s \<noteq> CHR ''0'')
      \<and> index_value s < 4294967295)"

subsection \<open>Property reads and writes\<close>

text \<open>\<^verbatim>\<open>o[k]\<close> on an object: \<open>None\<close> stands for \<^verbatim>\<open>undefined\<close> (no own property).\<close>

abbreviation obj_get :: "(string \<times> 'a) list \<Rightarrow> string \<Rightarrow> 'a option" where
  "obj_get \<equiv> map_of"

text \<open>A new array index goes before the first key that is no index or a larger index.\<close>

fun insert_index :: "string \<Rightarrow> 'a \<Rightarrow> (string \<times> 'a) list \<Rightarrow> (string \<times> 'a) list" where
  "insert_index k v [] = [(k, v)]"
| "insert_index k v ((k', v') # rest) =
     (if is_array_index k' \<and> index_value k' < index_value k
      then (k', v') # insert_index k v rest
      else (k, v) # (k', v') # rest)"

fun replace_value :: "string \<Rightarrow> 'a \<Rightarrow> (string \<times> 'a) list \<Rightarrow> (string \<times> 'a) list" where
  "replace_value k v [] = []"
| "replace_value k v ((k', v') # rest) =
     (if k' = k then (k', v) # rest else (k', v') # replace_value k v rest)"

text \<open>
  \<^verbatim>\<open>o[k] = v\<close>: an existing property keeps its place and takes the value; a new one is placed
  by the enumeration order.
\<close>

definition obj_set :: "string \<Rightarrow> 'a \<Rightarrow> (string \<times> 'a) list \<Rightarrow> (string \<times> 'a) list" where
  "obj_set k v ob =
     (if k \<in> fst ` set ob then replace_value k v ob
      else if is_array_index k then insert_index k v ob
      else ob @ [(k, v)])"

text \<open>
  The own enumerable properties that \<^verbatim>\<open>for (const key in x)\<close> guarded by
  \<^verbatim>\<open>x.hasOwnProperty(key)\<close> visits: the properties of an object, the elements of an array under
  their indices, the characters of a string under their indices, nothing for
  \<^verbatim>\<open>undefined\<close>, \<^verbatim>\<open>null\<close>, booleans and numbers.
\<close>

definition indexed :: "'a list \<Rightarrow> (string \<times> 'a) list" where
  "indexed xs = zip (map string_of_nat [0..<length xs]) xs"

fun entries :: "jsval \<Rightarrow> jsobj" where
  "entries (JObj kvs) = kvs"
| "entries (JArr xs) = indexed xs"
| "entries (JStr s) = indexed (map (\<lambda>c. JStr [c]) s)"
| "entries _ = []"

subsection \<open>Exceptions\<close>

text \<open>
  What ends a run before its last statement: a TypeError thrown by a statement of the
  script, the registry directory that does not exist, and an error of the file system.
\<close>

datatype error = TypeError | RegistryNotFound | IOError

section \<open>Axis pivot\<close>

text \<open>
  \<^verbatim>\<open>typeof level2Object !== 'object' || level2Object === null\<close> is the guard of the pivot:
  objects and arrays pass it.
\<close>

fun is_typeof_object :: "jsval \<Rightarrow> bool" where
  "is_typeof_object (JObj _) = True"
| "is_typeof_object (JArr _) = True"
| "is_typeof_object _ = False"

text \<open>
  The body of the inner loop: \<^verbatim>\<open>if (!inverted[level2Key]) inverted[level2Key] = {};\<close>
  \<^verbatim>\<open>inverted[level2Key][level1Key] = value\<close>. Every value of \<open>inverted\<close> is an object made
  here, so it is kept as a list of rows.
\<close>

definition inverted_put ::
    "string \<Rightarrow> string \<times> jsval \<Rightarrow> (string \<times> jsobj) list \<Rightarrow> (string \<times> jsobj) list" where
  "inverted_put level1Key kv inverted =
     (let level2Key = fst kv; v = snd kv;
          inverted' = (case obj_get inverted level2Key of
                         None \<Rightarrow> obj_set level2Key [] inverted
                       | Some _ \<Rightarrow> inverted)
      in case obj_get inverted' level2Key of
           Some row \<Rightarrow> obj_set level2Key (obj_set level1Key v row) inverted'
         | None \<Rightarrow> inverted')"

text \<open>
  The body of the outer loop. The state is \<open>inverted\<close> and the console: the keys for which
  \<^verbatim>\<open>console.warn("Skipping non-object value for key: ...")\<close> has run, in the order of the
  calls.
\<close>

definition inverted_level1 ::
    "string \<times> jsval \<Rightarrow> (string \<times> jsobj) list \<times> string list
       \<Rightarrow> (string \<times> jsobj) list \<times> string list" where
  "inverted_level1 kv st =
     (let level1Key = fst kv; level2Object = snd kv; inverted = fst st; console = snd st
      in if \<not> is_typeof_object level2Object then (inverted, console @ [level1Key])
         else (fold (inverted_put level1Key) (entries level2Object) inverted, console))"

text \<open>
  The loop over the input, from the empty \<open>inverted\<close> and a silent console: \<open>inverted\<close> when
  the loop ends is what the pivot returns, and the console is what it has printed.
\<close>

definition inverted_loop :: "jsval \<Rightarrow> (string \<times> jsobj) list \<times> string list" where
  "inverted_loop originalObject = fold inverted_level1 (entries originalObject) ([], [])"

definition inverted_rows :: "jsval \<Rightarrow> (string \<times> jsobj) list" where
  "inverted_rows originalObject = fst (inverted_loop originalObject)"

definition warned_keys :: "jsval \<Rightarrow> string list" where
  "warned_keys originalObject = snd (inverted_loop originalObject)"

definition inverseNestedObject :: "jsval \<Rightarrow> jsobj" where
  "inverseNestedObject originalObject = map (\<lambda>(k, row). (k, JObj row)) (inverted_rows originalObject)"

section \<open>Deep merge\<close>

fun isObject :: "jsval \<Rightarrow> bool" where
  "isObject (JObj _) = True"
| "isObject _ = False"

text \<open>
  \<^verbatim>\<open>JSON.parse(JSON.stringify(v))\<close> on an object: a fresh value with the same properties,
  where a property holding \<^verbatim>\<open>undefined\<close> is left out and an array element holding it
  becomes \<^verbatim>\<open>null\<close>.
\<close>

fun json_copy :: "jsval \<Rightarrow> jsval" where
  "json_copy (JObj kvs) =
     JObj (map (\<lambda>(k, v). (k, json_copy v)) (filter (\<lambda>(k, v). v \<noteq> JUndefined) kvs))"
| "json_copy (JArr xs) = JArr (map (\<lambda>v. if v = JUndefined then JNull else json_copy v) xs)"
| "json_copy v = v"

text \<open>
  One pass of \<^verbatim>\<open>for (const key in source)\<close> over the properties of the source, the target
  threaded through; \<open>source\<close> is the list of the own properties of the source, for the guard.
  The guard \<^verbatim>\<open>source.hasOwnProperty(key)\<close> calls what the source holds under the name
  \<^verbatim>\<open>hasOwnProperty\<close>: the function of \<^verbatim>\<open>Object.prototype\<close>, unless the source has a property
  of its own with that name. A value of the data is no function, and calling it throws a
  TypeError. The recursive call \<^verbatim>\<open>deepMerge(targetValue, sourceValue)\<close> runs this loop on the
  object that \<open>target[key]\<close> holds and changes it in place; an exception that it throws
  ends the outer loop too.

  Where the target has no property of its own under a key, \<^verbatim>\<open>target[key]\<close> reads
  \<^verbatim>\<open>Object.prototype\<close>. Its members are functions, which \<open>isObject\<close> refuses as it refuses
  \<^verbatim>\<open>undefined\<close>, and an assignment makes a property of the target. The one exception is the
  key \<^verbatim>\<open>__proto__\<close>, which reads and sets the prototype of the target; that key is outside
  the embedding.
\<close>

fun merge_entries :: "jsobj \<Rightarrow> jsobj \<Rightarrow> jsobj \<Rightarrow> error + jsobj" where
  "merge_entries source [] target = Inr target"
| "merge_entries source ((key, sourceValue) # rest) target =
     (if obj_get source ''hasOwnProperty'' \<noteq> None then Inl TypeError
      else case sourceValue of
        JObj s \<Rightarrow>
          (case obj_get target key of
             Some (JObj t) \<Rightarrow>
               (case merge_entries s s t of
                  Inl e \<Rightarrow> Inl e
                | Inr t' \<Rightarrow> merge_entries source rest (obj_set key (JObj t') target))
           | _ \<Rightarrow> merge_entries source rest (obj_set key (json_copy sourceValue) target))
      | _ \<Rightarrow> merge_entries source rest (obj_set key sourceValue target))"

text \<open>\<^verbatim>\<open>deepMerge(target, ...sources)\<close>: the first source is merged, then the rest.\<close>

fun deepMerge :: "jsobj \<Rightarrow> jsval list \<Rightarrow> error + jsobj" where
  "deepMerge target [] = Inr target"
| "deepMerge target (source # sources) =
     (case merge_entries (entries source) (entries source) target of
        Inl e \<Rightarrow> Inl e
      | Inr target' \<Rightarrow> deepMerge target' sources)"

section \<open>Strings\<close>

definition startsWith :: "string \<Rightarrow> string \<Rightarrow> bool" where
  "startsWith s p = (take (length p) s = p)"

definition endsWith :: "string \<Rightarrow> string \<Rightarrow> bool" where
  "endsWith s p = (length p \<le> length s \<and> drop (length s - length p) s = p)"

text \<open>\<^verbatim>\<open>s.padStart(n, "0")\<close>.\<close>

definition padStart :: "nat \<Rightarrow> string \<Rightarrow> string" where
  "padStart n s = replicate (n - length s) (CHR ''0'') @ s"

subsection \<open>\<^verbatim>\<open>JSON.stringify\<close>\<close>

definition hex_digit :: "nat \<Rightarrow> char" where
  "hex_digit d = ''0123456789abcdef'' ! (d mod 16)"

text \<open>
  The escapes of a string literal: the quote, the backslash, the five short escapes and
  \<^verbatim>\<open>\u00xx\<close> for the other control characters.
\<close>

definition quote_char :: "char \<Rightarrow> string" where
  "quote_char c =
     (let n = (of_char c :: nat) in
      if c = CHR 0x22 then [CHR 0x5C, CHR 0x22]
      else if c = CHR 0x5C then [CHR 0x5C, CHR 0x5C]
      else if c = CHR 0x08 then [CHR 0x5C, CHR ''b'']
      else if c = CHR 0x0C then [CHR 0x5C, CHR ''f'']
      else if c = CHR 0x0A then [CHR 0x5C, CHR ''n'']
      else if c = CHR 0x0D then [CHR 0x5C, CHR ''r'']
      else if c = CHR 0x09 then [CHR 0x5C, CHR ''t'']
      else if n < 32 then [CHR 0x5C, CHR ''u'', CHR ''0'', CHR ''0'', hex_digit (n div 16), hex_digit (n mod 16)]
      else [c])"

definition quote :: "string \<Rightarrow> string" where
  "quote s = CHR 0x22 # concat (map quote_char s) @ [CHR 0x22]"

fun join :: "string \<Rightarrow> string list \<Rightarrow> string" where
  "join sep [] = []"
| "join sep [x] = x"
| "join sep (x # y # ys) = x @ sep @ join sep (y # ys)"

text \<open>
  The script serialises objects only. A property that holds \<^verbatim>\<open>undefined\<close> is left out and an
  array element that holds it prints as \<^verbatim>\<open>null\<close>.
\<close>

fun stringify :: "jsval \<Rightarrow> string" where
  "stringify JUndefined = ''null''"
| "stringify JNull = ''null''"
| "stringify (JBool b) = (if b then ''true'' else ''false'')"
| "stringify (JNum i) = string_of_int i"
| "stringify (JStr s) = quote s"
| "stringify (JArr xs) = ''['' @ join '','' (map stringify xs) @ '']''"
| "stringify (JObj kvs) =
     ''{'' @ join '',''
        (map (\<lambda>(k, v). quote k @ '':'' @ stringify v) (filter (\<lambda>(k, v). v \<noteq> JUndefined) kvs))
      @ ''}''"

section \<open>Tree loader\<close>

text \<open>
  A directory is the list of its entries in the order \<^verbatim>\<open>fs.readdirSync\<close> returns them; an
  entry is a file with its text, a directory, or something that is neither.
  \<^verbatim>\<open>JSON.parse\<close> is a parameter: \<open>None\<close> when it throws.
\<close>

datatype fsnode = File string | Dir "(string \<times> fsnode) list" | Other

type_synonym parser = "string \<Rightarrow> jsval option"

fun createJsonObjectTree_loop :: "parser \<Rightarrow> (string \<times> fsnode) list \<Rightarrow> jsobj \<Rightarrow> jsobj" where
  "createJsonObjectTree_loop parse [] tree = tree"
| "createJsonObjectTree_loop parse ((item, node) # items) tree =
     createJsonObjectTree_loop parse items
       (if startsWith item ''.'' then tree
        else case node of
          Dir sub \<Rightarrow>
            (let subTree = createJsonObjectTree_loop parse sub []
             in if length (map fst subTree) > 0 then obj_set item (JObj subTree) tree else tree)
        | File contentString \<Rightarrow>
            (if endsWith item ''.json''
             then (case parse contentString of
                     Some v \<Rightarrow> obj_set item v tree
                   | None \<Rightarrow> tree)
             else tree)
        | Other \<Rightarrow> tree)"

definition createJsonObjectTree :: "parser \<Rightarrow> (string \<times> fsnode) list \<Rightarrow> jsobj" where
  "createJsonObjectTree parse items = createJsonObjectTree_loop parse items []"

fun createFileTree_loop :: "parser \<Rightarrow> (string \<times> fsnode) list \<Rightarrow> jsobj \<Rightarrow> jsobj" where
  "createFileTree_loop parse [] tree = tree"
| "createFileTree_loop parse ((item, node) # items) tree =
     createFileTree_loop parse items
       (case node of
          Dir sub \<Rightarrow>
            (let subTree = createJsonObjectTree parse sub
             in if length (map fst subTree) > 0 then obj_set item (JObj subTree) tree else tree)
        | File contentString \<Rightarrow> obj_set item (JStr contentString) tree
        | Other \<Rightarrow> tree)"

definition createFileTree :: "parser \<Rightarrow> (string \<times> fsnode) list \<Rightarrow> jsobj" where
  "createFileTree parse items = createFileTree_loop parse items []"

section \<open>The pivoted view\<close>

text \<open>
  \<^verbatim>\<open>Object.entries(x).reduce((o, [k, v]) => { o[k] = f(k, v); return o }, {})\<close>, the shape of each
  of the four nested reductions that build \<open>switched\<close>.
\<close>

definition reduce_assign :: "(string \<Rightarrow> jsval \<Rightarrow> jsval) \<Rightarrow> jsobj \<Rightarrow> jsobj" where
  "reduce_assign f kvs = fold (\<lambda>kv ob. obj_set (fst kv) (f (fst kv) (snd kv)) ob) kvs []"

definition switched3 :: "string \<Rightarrow> jsval \<Rightarrow> jsval" where
  "switched3 k2 v2 =
     JObj (reduce_assign
             (\<lambda>k3 v3. if k2 = ''values.json'' then JObj (inverseNestedObject v3) else v3)
             (inverseNestedObject v2))"

definition switched2 :: "jsval \<Rightarrow> jsval" where
  "switched2 v1 = JObj (reduce_assign switched3 (inverseNestedObject v1))"

definition switched1 :: "jsval \<Rightarrow> jsval" where
  "switched1 v0 = JObj (reduce_assign (\<lambda>k1. switched2) (inverseNestedObject v0))"

definition switched :: "jsobj \<Rightarrow> jsobj" where
  "switched objectTree = reduce_assign (\<lambda>k0. switched1) objectTree"

section \<open>Snapshot builder\<close>

definition filemaps :: "(string \<times> string) list" where
  "filemaps =
     [(''atrules.json'', ''atrules''),
      (''attributes.json'', ''attributes''),
      (''classes.json'', ''classes''),
      (''elements.json'', ''elements''),
      (''values.json'', ''values'')]"

text \<open>
  The reduction over the groups of one year. The callback returns \<open>o2\<close> inside the
  \<^verbatim>\<open>if\<close> only: after a group that is not in \<open>filemaps\<close> the accumulator is
  \<^verbatim>\<open>undefined\<close>, and the assignment \<^verbatim>\<open>o2[filemaps[group]] = v2\<close> for a later known group
  throws a TypeError.
\<close>

fun rename_groups :: "jsobj \<Rightarrow> jsval \<Rightarrow> error + jsval" where
  "rename_groups [] o2 = Inr o2"
| "rename_groups ((grp, v2) # rest) o2 =
     (case obj_get filemaps grp of
        Some name \<Rightarrow>
          (case o2 of
             JObj ob \<Rightarrow> rename_groups rest (JObj (obj_set name v2 ob))
           | _ \<Rightarrow> Inl TypeError)
      | None \<Rightarrow> rename_groups rest JUndefined)"

record snapshot_state =
  o1 :: jsobj
  index_from :: jsobj
  index_last :: jsobj
  finalfiles :: jsobj

definition fromfilename :: "string \<Rightarrow> string \<Rightarrow> string" where
  "fromfilename platform year = ''platform/'' @ platform @ ''--from-'' @ padStart 4 year @ ''.json''"

definition lastfilename :: "string \<Rightarrow> nat \<Rightarrow> string" where
  "lastfilename platform index =
     ''platform/'' @ platform @ ''--last-'' @ padStart 4 (string_of_nat (index + 1)) @ ''.json''"

text \<open>
  One step of \<^verbatim>\<open>Object.keys(years).reverse().reduce((o1, year, index) => ..., {})\<close>.
  \<^verbatim>\<open>Object.entries(years[year])\<close> throws on \<^verbatim>\<open>undefined\<close>, and an exception of the merge
  ends the run.
\<close>

definition snapshot_step ::
    "string \<Rightarrow> jsobj \<Rightarrow> string \<Rightarrow> nat \<Rightarrow> snapshot_state \<Rightarrow> error + snapshot_state" where
  "snapshot_step platform years year index st =
     (case obj_get years year of
        None \<Rightarrow> Inl TypeError
      | Some groups \<Rightarrow>
          (case rename_groups (entries groups) (JObj []) of
             Inl e \<Rightarrow> Inl e
           | Inr source \<Rightarrow>
               (case deepMerge (o1 st) [source] of
                  Inl e \<Rightarrow> Inl e
                | Inr merged \<Rightarrow>
                    Inr \<lparr> o1 = merged,
                          index_from = obj_set year (JStr (fromfilename platform year)) (index_from st),
                          index_last = obj_set (string_of_nat (index + 1) @ '' year'')
                                         (JStr (lastfilename platform index)) (index_last st),
                          finalfiles = obj_set (lastfilename platform index) (JStr (stringify (JObj merged)))
                                         (obj_set (fromfilename platform year) (JStr (stringify (JObj merged)))
                                            (finalfiles st)) \<rparr>)))"

fun snapshot_loop ::
    "string \<Rightarrow> jsobj \<Rightarrow> string list \<Rightarrow> nat \<Rightarrow> snapshot_state \<Rightarrow> error + snapshot_state" where
  "snapshot_loop platform years [] index st = Inr st"
| "snapshot_loop platform years (year # rest) index st =
     (case snapshot_step platform years year index st of
        Inl e \<Rightarrow> Inl e
      | Inr st' \<Rightarrow> snapshot_loop platform years rest (Suc index) st')"

text \<open>
  The body of \<^verbatim>\<open>Object.entries(switched).forEach(([platform, years]) => ...)\<close>. The script
  creates \<^verbatim>\<open>indexmap[platform] = {from: {}, last: {}}\<close> first and fills the two objects in
  place; here the filled object is stored.
\<close>

definition platform_step :: "string \<times> jsval \<Rightarrow> jsobj \<times> jsobj \<Rightarrow> error + jsobj \<times> jsobj" where
  "platform_step pkv s =
     (let platform = fst pkv; years = entries (snd pkv); indexmap = fst s
      in case snapshot_loop platform years (rev (map fst years)) 0
                \<lparr> o1 = [], index_from = [], index_last = [], finalfiles = snd s \<rparr> of
           Inl e \<Rightarrow> Inl e
         | Inr st \<Rightarrow>
             Inr (obj_set platform
                    (JObj [(''from'', JObj (index_from st)), (''last'', JObj (index_last st))])
                    indexmap,
                  finalfiles st))"

fun platform_loop :: "jsobj \<Rightarrow> jsobj \<times> jsobj \<Rightarrow> error + jsobj \<times> jsobj" where
  "platform_loop [] s = Inr s"
| "platform_loop (pkv # rest) s =
     (case platform_step pkv s of
        Inl e \<Rightarrow> Inl e
      | Inr s' \<Rightarrow> platform_loop rest s')"

text \<open>
  The script from the loaded trees on: the manifest \<open>indexmap\<close> and the file map handed to
  the publisher.
\<close>

definition build :: "jsobj \<Rightarrow> jsobj \<Rightarrow> error + jsobj \<times> jsobj" where
  "build objectTree siteTree =
     (case platform_loop (switched objectTree) ([], siteTree) of
        Inl e \<Rightarrow> Inl e
      | Inr (indexmap, files) \<Rightarrow>
          Inr (indexmap, obj_set ''index.json'' (JStr (stringify (JObj indexmap))) files))"

section \<open>Publisher\<close>

text \<open>
  The directories on the way to a file, as paths relative to the target directory: for
  \<^verbatim>\<open>a/b/c\<close> they are \<^verbatim>\<open>a\<close> and \<^verbatim>\<open>a/b\<close>.
\<close>

definition parent_dirs :: "string \<Rightarrow> string list" where
  "parent_dirs relativePath =
     map (\<lambda>i. take i relativePath)
       (filter (\<lambda>i. relativePath ! i = CHR ''/'') [0..<length relativePath])"

text \<open>
  The loop over the file map; the target directory has just been made and is empty, and
  \<open>written\<close> holds the files written so far. \<^verbatim>\<open>fs.mkdirSync(parentDir, {recursive: true})\<close>
  throws when a file written before stands where a directory is needed.
  \<^verbatim>\<open>fs.writeFileSync\<close> takes a string: for an object (a directory of the site tree) it throws
  a TypeError, and for a path that is a directory, the target directory itself or one made
  for an earlier file, an error of the file system. Paths are compared as they are written;
  the script makes them from the names of directory entries and the prefix
  \<^verbatim>\<open>platform/\<close>. The other failures of the file system (no permission, a full disk) are not
  part of the embedding. The result is the list of the files written, path and content.
\<close>

fun publish_loop :: "jsobj \<Rightarrow> (string \<times> string) list \<Rightarrow> error + (string \<times> string) list" where
  "publish_loop [] written = Inr written"
| "publish_loop ((relativePath, content) # rest) written =
     (if list_ex (\<lambda>d. d \<in> fst ` set written) (parent_dirs relativePath) then Inl IOError
      else case content of
        JStr c \<Rightarrow>
          (if relativePath = [] \<or> list_ex (\<lambda>p. relativePath \<in> set (parent_dirs p)) (map fst written)
           then Inl IOError
           else publish_loop rest (written @ [(relativePath, c)]))
      | _ \<Rightarrow> Inl TypeError)"

definition publishPathContent :: "jsobj \<Rightarrow> error + (string \<times> string) list" where
  "publishPathContent fileMap = publish_loop fileMap []"

text \<open>
  The main execution: the registry root must exist, both roots must be directories for
  \<^verbatim>\<open>fs.readdirSync\<close>, and every error ends the run with exit status 1.
\<close>

definition main :: "parser \<Rightarrow> fsnode option \<Rightarrow> fsnode option \<Rightarrow> error + (string \<times> string) list" where
  "main parse registry site =
     (case registry of
        None \<Rightarrow> Inl RegistryNotFound
      | Some (Dir registryItems) \<Rightarrow>
          (case site of
             Some (Dir siteItems) \<Rightarrow>
               (case build (createJsonObjectTree parse registryItems) (createFileTree parse siteItems) of
                  Inl e \<Rightarrow> Inl e
                | Inr (indexmap, files) \<Rightarrow> publishPathContent files)
           | _ \<Rightarrow> Inl IOError)
      | Some _ \<Rightarrow> Inl IOError)"

section \<open>Deep merge in a store\<close>

text \<open>
  Objects and arrays have an identity: a value is a primitive or the address of a node
  of the store, and a node holds the properties or the elements. An allocation appends
  a node; nothing is ever freed.
\<close>

datatype hval = HUndefined | HNull | HBool bool | HNum int | HStr string | HRef nat

datatype hnode = HObject "(string \<times> hval) list" | HArray "hval list"

type_synonym heap = "hnode list"

text \<open>The node at an address, the properties that \<^verbatim>\<open>for ... in\<close> visits, and \<open>isObject\<close>.\<close>

definition node_at :: "heap \<Rightarrow> nat \<Rightarrow> hnode option" where
  "node_at h a = (if a < length h then Some (h ! a) else None)"

fun node_entries :: "hnode \<Rightarrow> (string \<times> hval) list" where
  "node_entries (HObject kvs) = kvs"
| "node_entries (HArray xs) = indexed xs"

definition h_entries :: "heap \<Rightarrow> hval \<Rightarrow> (string \<times> hval) list" where
  "h_entries h v =
     (case v of
        HRef a \<Rightarrow> (case node_at h a of Some n \<Rightarrow> node_entries n | None \<Rightarrow> [])
      | HStr s \<Rightarrow> indexed (map (\<lambda>c. HStr [c]) s)
      | _ \<Rightarrow> [])"

definition isObject_h :: "heap \<Rightarrow> hval \<Rightarrow> bool" where
  "isObject_h h v =
     (case v of
        HRef a \<Rightarrow> (case node_at h a of Some (HObject kvs) \<Rightarrow> True | _ \<Rightarrow> False)
      | _ \<Rightarrow> False)"

text \<open>
  The value that \<^verbatim>\<open>JSON.stringify\<close> walks through, to a bounded depth: \<open>None\<close> when the
  bound is reached. With the number of nodes of the store as the bound, \<open>None\<close> stands
  for a circular structure, on which \<^verbatim>\<open>JSON.stringify\<close> throws.
\<close>

fun read_val :: "nat \<Rightarrow> heap \<Rightarrow> hval \<Rightarrow> jsval option"
and read_list :: "nat \<Rightarrow> heap \<Rightarrow> hval list \<Rightarrow> jsval list option" where
  "read_val n h HUndefined = Some JUndefined"
| "read_val n h HNull = Some JNull"
| "read_val n h (HBool b) = Some (JBool b)"
| "read_val n h (HNum i) = Some (JNum i)"
| "read_val n h (HStr s) = Some (JStr s)"
| "read_val 0 h (HRef a) = None"
| "read_val (Suc n) h (HRef a) =
     (case node_at h a of
        None \<Rightarrow> None
      | Some (HObject kvs) \<Rightarrow> map_option (\<lambda>vs. JObj (zip (map fst kvs) vs)) (read_list n h (map snd kvs))
      | Some (HArray xs) \<Rightarrow> map_option JArr (read_list n h xs))"
| "read_list n h [] = Some []"
| "read_list n h (v # vs) =
     (case read_val n h v of
        None \<Rightarrow> None
      | Some x \<Rightarrow> (case read_list n h vs of None \<Rightarrow> None | Some xs \<Rightarrow> Some (x # xs)))"

text \<open>What \<^verbatim>\<open>JSON.parse\<close> builds for a value: new nodes, the children before their parent.\<close>

fun alloc_val :: "jsval \<Rightarrow> heap \<Rightarrow> hval \<times> heap"
and alloc_props :: "jsobj \<Rightarrow> heap \<Rightarrow> (string \<times> hval) list \<times> heap"
and alloc_elems :: "jsval list \<Rightarrow> heap \<Rightarrow> hval list \<times> heap" where
  "alloc_val JUndefined h = (HUndefined, h)"
| "alloc_val JNull h = (HNull, h)"
| "alloc_val (JBool b) h = (HBool b, h)"
| "alloc_val (JNum i) h = (HNum i, h)"
| "alloc_val (JStr s) h = (HStr s, h)"
| "alloc_val (JArr xs) h = (case alloc_elems xs h of (rs, h1) \<Rightarrow> (HRef (length h1), h1 @ [HArray rs]))"
| "alloc_val (JObj kvs) h = (case alloc_props kvs h of (ps, h1) \<Rightarrow> (HRef (length h1), h1 @ [HObject ps]))"
| "alloc_props [] h = ([], h)"
| "alloc_props ((k, v) # kvs) h =
     (case alloc_val v h of (r, h1) \<Rightarrow> (case alloc_props kvs h1 of (ps, h2) \<Rightarrow> ((k, r) # ps, h2)))"
| "alloc_elems [] h = ([], h)"
| "alloc_elems (v # vs) h =
     (case alloc_val v h of (r, h1) \<Rightarrow> (case alloc_elems vs h1 of (rs, h2) \<Rightarrow> (r # rs, h2)))"

text \<open>\<^verbatim>\<open>JSON.parse(JSON.stringify(v))\<close> in the store.\<close>

definition json_copy_h :: "heap \<Rightarrow> hval \<Rightarrow> (hval \<times> heap) option" where
  "json_copy_h h v =
     (case read_val (length h) h v of
        None \<Rightarrow> None
      | Some x \<Rightarrow> Some (alloc_val (json_copy x) h))"

text \<open>
  \<^verbatim>\<open>target[key] = v\<close> on an object node. The merge writes to plain objects only; \<open>None\<close>
  for any other target is the edge of the model.
\<close>

definition set_prop :: "heap \<Rightarrow> nat \<Rightarrow> string \<Rightarrow> hval \<Rightarrow> heap option" where
  "set_prop h target key v =
     (case node_at h target of
        Some (HObject kvs) \<Rightarrow> Some (h[target := HObject (obj_set key v kvs)])
      | _ \<Rightarrow> None)"

text \<open>A loop whose body can fail: the first failure ends it.\<close>

fun fold_option :: "('a \<Rightarrow> 's \<Rightarrow> 's option) \<Rightarrow> 'a list \<Rightarrow> 's \<Rightarrow> 's option" where
  "fold_option f [] s = Some s"
| "fold_option f (x # xs) s = (case f x s of None \<Rightarrow> None | Some s' \<Rightarrow> fold_option f xs s')"

text \<open>
  The body of \<^verbatim>\<open>for (const key in source)\<close> in the store, with the recursive call as a
  parameter. \<open>None\<close> is a run that does not return a store: the TypeError of the guard
  \<^verbatim>\<open>source.hasOwnProperty(key)\<close> on a source that has a property of that name, a failure
  of the recursive call or of the copy, a target that is no object.
\<close>

definition merge_key_h ::
    "(heap \<Rightarrow> nat \<Rightarrow> hval \<Rightarrow> heap option) \<Rightarrow> nat \<Rightarrow> hval \<Rightarrow> string \<Rightarrow> heap \<Rightarrow> heap option" where
  "merge_key_h recurse target source key h =
     (case obj_get (h_entries h source) key of
        None \<Rightarrow> Some h
      | Some sourceValue \<Rightarrow>
          if obj_get (h_entries h source) ''hasOwnProperty'' \<noteq> None then None else
          (let targetValue = (case obj_get (h_entries h (HRef target)) key of
                                None \<Rightarrow> HUndefined
                              | Some v \<Rightarrow> v)
           in if isObject_h h sourceValue \<and> isObject_h h targetValue
              then (case targetValue of HRef ta \<Rightarrow> recurse h ta sourceValue | _ \<Rightarrow> None)
              else if isObject_h h sourceValue
              then (case json_copy_h h sourceValue of
                      None \<Rightarrow> None
                    | Some (c, h1) \<Rightarrow> set_prop h1 target key c)
              else set_prop h target key sourceValue))"

text \<open>
  \<^verbatim>\<open>deepMerge(target, source)\<close> in the store. The first argument bounds the depth of the
  calls: a source that contains itself makes the script recurse until the stack is
  exhausted, and the model return \<open>None\<close>. The keys are those the source has when the loop
  starts.
\<close>

primrec deepMerge_h :: "nat \<Rightarrow> heap \<Rightarrow> nat \<Rightarrow> hval \<Rightarrow> heap option" where
  "deepMerge_h 0 h target source = None"
| "deepMerge_h (Suc n) h target source =
     fold_option (merge_key_h (deepMerge_h n) target source) (map fst (h_entries h source)) h"

text \<open>
  A merge run in the store from values: the target and the source are built in an empty
  store, one after the other, merged, and the target is read back. The number of nodes
  bounds the depth of the calls and of the reading.
\<close>

definition merge_in_store :: "jsobj \<Rightarrow> jsval \<Rightarrow> jsval option" where
  "merge_in_store target source =
     (case alloc_val (JObj target) [] of
        (HRef t, h0) \<Rightarrow>
          (case alloc_val source h0 of
             (s, h1) \<Rightarrow>
               (case deepMerge_h (length h1) h1 t s of
                  Some h2 \<Rightarrow> read_val (length h2) h2 (HRef t)
                | None \<Rightarrow> None))
      | _ \<Rightarrow> None)"

section \<open>Vocabulary of the properties\<close>

subsection \<open>Values and paths\<close>

text \<open>
  The members of \<^verbatim>\<open>Object.prototype\<close>. A key with one of these names is read through the
  prototype chain by \<^verbatim>\<open>o[k]\<close> and \<^verbatim>\<open>o.hasOwnProperty\<close>; the embedding does not cover it.
\<close>

definition proto_names :: "string list" where
  "proto_names =
     [''__proto__'', ''constructor'', ''hasOwnProperty'', ''isPrototypeOf'',
      ''propertyIsEnumerable'', ''toLocaleString'', ''toString'', ''valueOf'',
      ''__defineGetter__'', ''__defineSetter__'', ''__lookupGetter__'', ''__lookupSetter__'']"

text \<open>An object has each key once, at every depth.\<close>

fun distinct_val :: "jsval \<Rightarrow> bool" where
  "distinct_val (JObj kvs) = (distinct (map fst kvs) \<and> list_all (\<lambda>kv. distinct_val (snd kv)) kvs)"
| "distinct_val (JArr xs) = list_all distinct_val xs"
| "distinct_val _ = True"

text \<open>
  The values that \<^verbatim>\<open>JSON.parse\<close> can return and that the embedding covers: no
  \<^verbatim>\<open>undefined\<close>, each key once, no key among \<open>proto_names\<close>.
\<close>

fun json_val :: "jsval \<Rightarrow> bool" where
  "json_val JUndefined = False"
| "json_val (JObj kvs) =
     (distinct (map fst kvs) \<and> list_all (\<lambda>kv. fst kv \<notin> set proto_names \<and> json_val (snd kv)) kvs)"
| "json_val (JArr xs) = list_all json_val xs"
| "json_val _ = True"

text \<open>\<^verbatim>\<open>ob[k1][k2]\<close> where \<open>ob[k1]\<close> is an object.\<close>

definition obj_get2 :: "jsobj \<Rightarrow> string \<Rightarrow> string \<Rightarrow> jsval option" where
  "obj_get2 ob k1 k2 = (case obj_get ob k1 of Some (JObj r) \<Rightarrow> obj_get r k2 | _ \<Rightarrow> None)"

text \<open>
  \<^verbatim>\<open>input[outer][inner]\<close> as the pivot reads it: the outer value has to pass the guard
  \<^verbatim>\<open>typeof === 'object'\<close>, not \<^verbatim>\<open>null\<close>.
\<close>

definition cell :: "jsval \<Rightarrow> string \<Rightarrow> string \<Rightarrow> jsval option" where
  "cell ob outer inner =
     (case obj_get (entries ob) outer of
        Some row \<Rightarrow> if is_typeof_object row then obj_get (entries row) inner else None
      | None \<Rightarrow> None)"

text \<open>Each inner key occurs under one outer key only.\<close>

definition unique_inner_keys :: "jsobj \<Rightarrow> bool" where
  "unique_inner_keys m = distinct (concat (map (\<lambda>kv. map fst (entries (snd kv))) m))"

text \<open>
  The value at a path of keys, read the way the pivot reads: every value on the way has
  to pass the guard \<^verbatim>\<open>typeof === 'object'\<close>, not \<^verbatim>\<open>null\<close>.
\<close>

fun path_get :: "jsval \<Rightarrow> string list \<Rightarrow> jsval option" where
  "path_get v [] = Some v"
| "path_get v (k # ks) =
     (if is_typeof_object v
      then (case obj_get (entries v) k of Some x \<Rightarrow> path_get x ks | None \<Rightarrow> None)
      else None)"

text \<open>
  The keys two levels below a platform of the registry tree: the year folders of its
  contributors. They are the years of the pivoted view.
\<close>

definition registry_years :: "jsval \<Rightarrow> string list" where
  "registry_years v0 =
     concat (map (\<lambda>kv. if is_typeof_object (snd kv) then map fst (entries (snd kv)) else [])
               (entries v0))"

text \<open>The label of the \<open>index\<close>-th entry of a \<open>last\<close> manifest.\<close>

definition last_label :: "nat \<Rightarrow> string" where
  "last_label index = string_of_nat (index + 1) @ '' year''"

text \<open>What one source key does to the target value under it.\<close>

definition merged_value :: "jsval \<Rightarrow> jsval option \<Rightarrow> error + jsval" where
  "merged_value sourceValue targetValue =
     (case sourceValue of
        JObj s \<Rightarrow>
          (case targetValue of
             Some (JObj t) \<Rightarrow>
               (case deepMerge t [sourceValue] of Inl e \<Rightarrow> Inl e | Inr t' \<Rightarrow> Inr (JObj t'))
           | _ \<Rightarrow> Inr (json_copy sourceValue))
      | _ \<Rightarrow> Inr sourceValue)"

subsection \<open>Tables of rows\<close>

definition lookup2 :: "(string \<times> (string \<times> 'a) list) list \<Rightarrow> string \<Rightarrow> string \<Rightarrow> 'a option" where
  "lookup2 rows b a = (case obj_get rows b of None \<Rightarrow> None | Some r \<Rightarrow> obj_get r a)"

definition has_cells :: "(string \<times> (string \<times> 'a) list) list \<Rightarrow> bool" where
  "has_cells rows = (\<forall>b. obj_get rows b \<noteq> None \<longrightarrow> (\<exists>a. lookup2 rows b a \<noteq> None))"

text \<open>Every row of a table has each key once, and every value in it satisfies \<open>P\<close>.\<close>

definition rows_ok :: "('a \<Rightarrow> bool) \<Rightarrow> (string \<times> (string \<times> 'a) list) list \<Rightarrow> bool" where
  "rows_ok P tbl =
     (distinct (map fst tbl) \<and>
      (\<forall>kv\<in>set tbl. distinct (map fst (snd kv)) \<and> (\<forall>av\<in>set (snd kv). P (snd av))))"

subsection \<open>Reachable nodes and new nodes\<close>

text \<open>The values that a node holds.\<close>

fun node_vals :: "hnode \<Rightarrow> hval list" where
  "node_vals (HObject kvs) = map snd kvs"
| "node_vals (HArray xs) = xs"

text \<open>The nodes that a value reaches by following addresses.\<close>

inductive reach :: "heap \<Rightarrow> hval \<Rightarrow> nat \<Rightarrow> bool" for h :: heap where
  reach_root: "a < length h \<Longrightarrow> reach h (HRef a) a"
| reach_step: "reach h v a \<Longrightarrow> HRef b \<in> set (node_vals (h ! a)) \<Longrightarrow> b < length h \<Longrightarrow> reach h v b"

fun refs_in :: "nat \<Rightarrow> nat \<Rightarrow> hval \<Rightarrow> bool" where
  "refs_in lo hi (HRef a) = (lo \<le> a \<and> a < hi)"
| "refs_in lo hi v = True"

text \<open>Every address held by a node of the store from \<open>lo\<close> on points into that part.\<close>

definition closed_from :: "nat \<Rightarrow> heap \<Rightarrow> bool" where
  "closed_from lo h = list_all (\<lambda>n. list_all (refs_in lo (length h)) (node_vals n)) (drop lo h)"

text \<open>
  What an allocation leaves behind: the old store as a prefix, and new nodes that hold
  new addresses only.
\<close>

definition allocated :: "heap \<Rightarrow> heap \<Rightarrow> bool" where
  "allocated h h1 =
     ((\<exists>ext. h1 = h @ ext) \<and>
      (\<forall>a. length h \<le> a \<and> a < length h1 \<longrightarrow>
           list_all (refs_in (length h) (length h1)) (node_vals (h1 ! a))))"

subsection \<open>Example registries\<close>

text \<open>
  \<^verbatim>\<open>JSON.parse\<close> on the two documents of the end-to-end example of the specification; no
  other text is read in the examples below.
\<close>

definition example_parse :: parser where
  \<open>example_parse s =
     (if s = ''{"foo":"-webkit-foo"}'' then Some (JObj [(''foo'', JStr ''-webkit-foo'')])
      else if s = ''{"bar":"-webkit-bar"}'' then Some (JObj [(''bar'', JStr ''-webkit-bar'')])
      else None)\<close>

text \<open>The registry of the end-to-end example: \<^verbatim>\<open>webkit/<year>/classes.json\<close>.\<close>

definition registry_by_year :: fsnode where
  \<open>registry_by_year =
     Dir [(''webkit'',
           Dir [(''2023'', Dir [(''classes.json'', File ''{"foo":"-webkit-foo"}'')]),
                (''2024'', Dir [(''classes.json'', File ''{"bar":"-webkit-bar"}'')])])]\<close>

text \<open>
  The same two files one directory deeper, \<^verbatim>\<open>webkit/safari/<year>/classes.json\<close>: the
  layout that the four reductions of \<open>switched\<close> take apart, a contributor's directory of
  year folders under each platform.
\<close>

definition registry_by_vendor :: fsnode where
  \<open>registry_by_vendor =
     Dir [(''webkit'',
           Dir [(''safari'',
                 Dir [(''2023'', Dir [(''classes.json'', File ''{"foo":"-webkit-foo"}'')]),
                      (''2024'', Dir [(''classes.json'', File ''{"bar":"-webkit-bar"}'')])])])]\<close>

text \<open>
  A year directory with the two group files \<^verbatim>\<open>classes.json\<close> and \<^verbatim>\<open>notes.json\<close>, and one with
  \<^verbatim>\<open>about.json\<close> and \<^verbatim>\<open>classes.json\<close>, each in the order of \<^verbatim>\<open>fs.readdirSync\<close>.
\<close>

definition registry_unknown_last :: fsnode where
  \<open>registry_unknown_last =
     Dir [(''webkit'',
           Dir [(''safari'',
                 Dir [(''2024'', Dir [(''classes.json'', File ''{"bar":"-webkit-bar"}''),
                                      (''notes.json'', File ''{"foo":"-webkit-foo"}'')])])])]\<close>

definition registry_unknown_first :: fsnode where
  \<open>registry_unknown_first =
     Dir [(''webkit'',
           Dir [(''safari'',
                 Dir [(''2024'', Dir [(''about.json'', File ''{"foo":"-webkit-foo"}''),
                                      (''classes.json'', File ''{"bar":"-webkit-bar"}'')])])])]\<close>

section \<open>Objects: reads after writes\<close>

lemma fst_in_keys: "(a, b) \<in> set ob \<Longrightarrow> a \<in> fst ` set ob"
  by force

lemma map_of_snoc:
  "k \<notin> fst ` set ob \<Longrightarrow> map_of (ob @ [(k, v)]) k' = (if k' = k then Some v else map_of ob k')"
  by (induction ob) auto

lemma map_of_insert_index:
  "k \<notin> fst ` set ob \<Longrightarrow> map_of (insert_index k v ob) k' = (if k' = k then Some v else map_of ob k')"
  by (induction ob) auto

lemma keys_insert_index: "fst ` set (insert_index k v ob) = insert k (fst ` set ob)"
  by (induction k v ob rule: insert_index.induct) (simp_all add: insert_commute)

lemma distinct_insert_index:
  "k \<notin> fst ` set ob \<Longrightarrow> distinct (map fst ob) \<Longrightarrow> distinct (map fst (insert_index k v ob))"
  by (induction ob) (auto simp: keys_insert_index)

lemma length_insert_index: "length (insert_index k v ob) = Suc (length ob)"
  by (induction ob) auto

lemma map_of_replace_value:
  "map_of (replace_value k v ob) k' = (if k' = k \<and> k \<in> fst ` set ob then Some v else map_of ob k')"
  by (induction ob) (auto dest: fst_in_keys)

lemma keys_replace_value: "map fst (replace_value k v ob) = map fst ob"
  by (induction ob) auto

lemma length_replace_value: "length (replace_value k v ob) = length ob"
  by (induction ob) auto

lemma obj_get_obj_set: "obj_get (obj_set k v ob) k' = (if k' = k then Some v else obj_get ob k')"
  by (simp add: obj_set_def map_of_replace_value map_of_insert_index map_of_snoc del: map_of_append)

lemma keys_obj_set: "fst ` set (obj_set k v ob) = insert k (fst ` set ob)"
proof -
  have "fst ` set (replace_value k v ob) = fst ` set ob"
    using keys_replace_value [of k v ob] by (metis list.set_map)
  then show ?thesis
    by (auto simp: obj_set_def keys_insert_index)
qed

lemma distinct_obj_set: "distinct (map fst ob) \<Longrightarrow> distinct (map fst (obj_set k v ob))"
  by (simp add: obj_set_def keys_replace_value distinct_insert_index)

lemma length_obj_set:
  "length (obj_set k v ob) = (if k \<in> fst ` set ob then length ob else Suc (length ob))"
  by (simp add: obj_set_def length_insert_index length_replace_value)

lemma in_replace_value:
  "(k', v') \<in> set (replace_value k v ob) \<Longrightarrow> (k' = k \<and> v' = v) \<or> (k', v') \<in> set ob"
  by (induction k v ob rule: replace_value.induct) (auto split: if_splits)

lemma in_insert_index:
  "(k', v') \<in> set (insert_index k v ob) \<Longrightarrow> (k' = k \<and> v' = v) \<or> (k', v') \<in> set ob"
  by (induction k v ob rule: insert_index.induct) (auto split: if_splits)

lemma in_obj_set:
  "(k', v') \<in> set (obj_set k v ob) \<Longrightarrow> (k' = k \<and> v' = v) \<or> (k', v') \<in> set ob"
  by (auto simp: obj_set_def split: if_splits dest: in_replace_value in_insert_index)

lemma digit_val_digit_char: "d < 10 \<Longrightarrow> digit_val (digit_char d) = int d"
proof -
  assume "d < 10"
  then have "d \<in> {0, 1, 2, 3, 4, 5, 6, 7, 8, 9}" by auto
  then show ?thesis
    by (auto simp: digit_val_def digit_char_def)
qed

lemma index_value_snoc: "index_value (s @ [c]) = 10 * index_value s + digit_val c"
  by (simp add: index_value_def)

lemma index_value_string_of_nat: "index_value (string_of_nat n) = int n"
proof (induction n rule: string_of_nat.induct)
  case (1 n)
  show ?case
  proof (cases "n < 10")
    case True
    then show ?thesis
      by (subst string_of_nat.simps) (simp add: index_value_def digit_val_digit_char)
  next
    case False
    with 1 have "index_value (string_of_nat (n div 10)) = int (n div 10)" by simp
    with False show ?thesis
      by (subst string_of_nat.simps) (simp add: index_value_snoc digit_val_digit_char zdiv_int zmod_int)
  qed
qed

lemma inj_string_of_nat: "inj string_of_nat"
proof (rule injI)
  fix m n assume "string_of_nat m = string_of_nat n"
  then have "index_value (string_of_nat m) = index_value (string_of_nat n)" by simp
  then show "m = n" by (simp add: index_value_string_of_nat)
qed

lemma keys_indexed: "map fst (indexed xs) = map string_of_nat [0..<length xs]"
  by (simp add: indexed_def)

lemma distinct_indexed: "distinct (map fst (indexed xs))"
  by (simp add: keys_indexed distinct_map inj_on_subset[OF inj_string_of_nat])

lemma in_indexed: "(k, x) \<in> set (indexed xs) \<Longrightarrow> x \<in> set xs"
  by (auto simp: indexed_def dest: set_zip_rightD)

lemma json_val_distinct_val: "json_val v \<Longrightarrow> distinct_val v"
  by (induction v rule: json_val.induct) (auto simp: list_all_iff)

lemma distinct_val_entries:
  "distinct_val v \<Longrightarrow> distinct (map fst (entries v)) \<and> (\<forall>kv\<in>set (entries v). distinct_val (snd kv))"
  by (cases v) (auto simp: list_all_iff distinct_indexed dest!: in_indexed)

section \<open>The pivot, cell by cell\<close>

lemma lookup2_inverted_put:
  "lookup2 (inverted_put a (b, v) tbl) b' a' = (if b' = b \<and> a' = a then Some v else lookup2 tbl b' a')"
  by (cases "obj_get tbl b") (auto simp: inverted_put_def lookup2_def obj_get_obj_set)

lemma obj_get_inverted_put_None:
  "obj_get (inverted_put a (b, v) tbl) b' = None \<longleftrightarrow> b' \<noteq> b \<and> obj_get tbl b' = None"
  by (cases "obj_get tbl b") (auto simp: inverted_put_def obj_get_obj_set)

lemma has_cells_inverted_put: "has_cells tbl \<Longrightarrow> has_cells (inverted_put a kv tbl)"
  unfolding has_cells_def
  by (cases kv) (metis lookup2_inverted_put obj_get_inverted_put_None option.distinct(1))

lemma has_cells_fold_put: "has_cells tbl \<Longrightarrow> has_cells (fold (inverted_put a) kvs tbl)"
  by (induction kvs arbitrary: tbl) (simp_all add: has_cells_inverted_put)

lemma lookup2_fold_put:
  "distinct (map fst kvs) \<Longrightarrow>
   lookup2 (fold (inverted_put a) kvs tbl) b' a' =
     (if a' = a then (case map_of kvs b' of Some v \<Rightarrow> Some v | None \<Rightarrow> lookup2 tbl b' a')
      else lookup2 tbl b' a')"
proof (induction kvs arbitrary: tbl)
  case Nil
  then show ?case by simp
next
  case (Cons kv kvs)
  obtain b v where kv: "kv = (b, v)" by (cases kv)
  from Cons.prems kv have d: "distinct (map fst kvs)" and nb: "map_of kvs b = None"
    by (auto simp: map_of_eq_None_iff)
  show ?case
    using Cons.IH [OF d, of "inverted_put a (b, v) tbl"] nb
    by (auto simp: kv lookup2_inverted_put split: option.splits)
qed

lemma fst_inverted_level1:
  "fst (inverted_level1 kv st) =
     (if is_typeof_object (snd kv) then fold (inverted_put (fst kv)) (entries (snd kv)) (fst st)
      else fst st)"
  by (simp add: inverted_level1_def Let_def)

lemma snd_inverted_level1:
  "snd (inverted_level1 kv st) = (if is_typeof_object (snd kv) then snd st else snd st @ [fst kv])"
  by (simp add: inverted_level1_def Let_def)

lemma lookup2_inverted_level1:
  "distinct (map fst (entries row)) \<Longrightarrow>
   lookup2 (fst (inverted_level1 (a, row) st)) b' a' =
     (if a' = a \<and> is_typeof_object row
      then (case obj_get (entries row) b' of Some v \<Rightarrow> Some v | None \<Rightarrow> lookup2 (fst st) b' a')
      else lookup2 (fst st) b' a')"
  by (auto simp: fst_inverted_level1 lookup2_fold_put)

lemma has_cells_inverted_level1: "has_cells (fst st) \<Longrightarrow> has_cells (fst (inverted_level1 kv st))"
  by (simp add: fst_inverted_level1 has_cells_fold_put)

lemma has_cells_fold_level1: "has_cells (fst st) \<Longrightarrow> has_cells (fst (fold inverted_level1 kvs st))"
  by (induction kvs arbitrary: st) (simp_all add: has_cells_inverted_level1)

lemma lookup2_fold_level1:
  "distinct (map fst kvs) \<Longrightarrow> \<forall>kv\<in>set kvs. distinct (map fst (entries (snd kv))) \<Longrightarrow>
   lookup2 (fst (fold inverted_level1 kvs st)) b a =
     (case map_of kvs a of
        Some row \<Rightarrow>
          if is_typeof_object row
          then (case obj_get (entries row) b of Some v \<Rightarrow> Some v | None \<Rightarrow> lookup2 (fst st) b a)
          else lookup2 (fst st) b a
      | None \<Rightarrow> lookup2 (fst st) b a)"
proof (induction kvs arbitrary: st)
  case Nil
  then show ?case by simp
next
  case (Cons kv kvs)
  obtain a0 row0 where kv: "kv = (a0, row0)" by (cases kv)
  from Cons.prems kv have d: "distinct (map fst kvs)" and na: "map_of kvs a0 = None"
    and r: "\<forall>kv\<in>set kvs. distinct (map fst (entries (snd kv)))"
    and r0: "distinct (map fst (entries row0))"
    by (auto simp: map_of_eq_None_iff)
  show ?case
    using Cons.IH [OF d r, of "inverted_level1 (a0, row0) st"] na
    by (auto simp: kv lookup2_inverted_level1 [OF r0] split: option.splits)
qed

lemma lookup2_inverted_rows:
  assumes "distinct (map fst (entries ob))"
    and "\<forall>kv\<in>set (entries ob). distinct (map fst (entries (snd kv)))"
  shows "lookup2 (inverted_rows ob) b a = cell ob a b"
  using lookup2_fold_level1 [OF assms, of "([], [])" b a]
  by (auto simp: inverted_rows_def inverted_loop_def cell_def lookup2_def split: option.splits)

lemma has_cells_inverted_rows: "has_cells (inverted_rows ob)"
proof -
  have "has_cells (fst (([], []) :: (string \<times> jsobj) list \<times> string list))"
    by (simp add: has_cells_def)
  then show ?thesis unfolding inverted_rows_def inverted_loop_def by (rule has_cells_fold_level1)
qed

lemma obj_get_inverseNestedObject:
  "obj_get (inverseNestedObject ob) b = map_option JObj (obj_get (inverted_rows ob) b)"
  by (simp add: inverseNestedObject_def map_of_map)

lemma obj_get2_inverseNestedObject:
  "obj_get2 (inverseNestedObject ob) b a = lookup2 (inverted_rows ob) b a"
  by (simp add: obj_get2_def lookup2_def obj_get_inverseNestedObject split: option.splits)

lemma pivot_cell:
  assumes "distinct_val ob"
  shows "obj_get2 (inverseNestedObject ob) inner outer = cell ob outer inner"
proof -
  have 1: "distinct (map fst (entries ob))"
    using distinct_val_entries [OF assms] by simp
  have 2: "\<forall>kv\<in>set (entries ob). distinct (map fst (entries (snd kv)))"
    using distinct_val_entries [OF assms] distinct_val_entries by blast
  show ?thesis
    by (simp add: obj_get2_inverseNestedObject lookup2_inverted_rows [OF 1 2])
qed

subsection \<open>The rows of the output\<close>

lemma rows_ok_obj_set:
  assumes "rows_ok P tbl" and "distinct (map fst r)" and "\<forall>av\<in>set r. P (snd av)"
  shows "rows_ok P (obj_set b r tbl)"
  using assms unfolding rows_ok_def
  by (auto simp: distinct_obj_set dest!: in_obj_set)

lemma rows_ok_inverted_put:
  assumes "rows_ok P tbl" and "P (snd kv)"
  shows "rows_ok P (inverted_put a kv tbl)"
proof -
  let ?tbl' = "case obj_get tbl (fst kv) of None \<Rightarrow> obj_set (fst kv) [] tbl | Some _ \<Rightarrow> tbl"
  have ok': "rows_ok P ?tbl'"
    using assms(1) by (auto split: option.splits intro: rows_ok_obj_set)
  show ?thesis
  proof (cases "obj_get ?tbl' (fst kv)")
    case None
    then show ?thesis using ok' by (simp add: inverted_put_def Let_def)
  next
    case (Some row)
    then have "(fst kv, row) \<in> set ?tbl'" by (rule map_of_SomeD)
    with ok' have d: "distinct (map fst row)" and p: "\<forall>av\<in>set row. P (snd av)"
      unfolding rows_ok_def by fastforce+
    have "rows_ok P (obj_set (fst kv) (obj_set a (snd kv) row) ?tbl')"
    proof (rule rows_ok_obj_set [OF ok'])
      show "distinct (map fst (obj_set a (snd kv) row))" using d by (rule distinct_obj_set)
      show "\<forall>av\<in>set (obj_set a (snd kv) row). P (snd av)"
        using p assms(2) by (auto dest!: in_obj_set)
    qed
    with Some show ?thesis by (simp add: inverted_put_def Let_def)
  qed
qed

lemma rows_ok_fold_put:
  "rows_ok P tbl \<Longrightarrow> \<forall>kv\<in>set kvs. P (snd kv) \<Longrightarrow> rows_ok P (fold (inverted_put a) kvs tbl)"
  by (induction kvs arbitrary: tbl) (simp_all add: rows_ok_inverted_put)

lemma rows_ok_fold_level1:
  "rows_ok P (fst st) \<Longrightarrow> \<forall>kv\<in>set kvs. \<forall>bv\<in>set (entries (snd kv)). P (snd bv) \<Longrightarrow>
   rows_ok P (fst (fold inverted_level1 kvs st))"
  by (induction kvs arbitrary: st) (simp_all add: fst_inverted_level1 rows_ok_fold_put)

lemma rows_ok_inverted_rows:
  assumes "\<forall>kv\<in>set (entries ob). \<forall>bv\<in>set (entries (snd kv)). P (snd bv)"
  shows "rows_ok P (inverted_rows ob)"
proof -
  have "rows_ok P (fst (([], []) :: (string \<times> jsobj) list \<times> string list))"
    by (simp add: rows_ok_def)
  then show ?thesis unfolding inverted_rows_def inverted_loop_def using assms by (rule rows_ok_fold_level1)
qed

lemma distinct_val_inverseNestedObject:
  assumes "distinct_val ob"
  shows "distinct_val (JObj (inverseNestedObject ob))"
proof -
  have "\<forall>kv\<in>set (entries ob). \<forall>bv\<in>set (entries (snd kv)). distinct_val (snd bv)"
    using distinct_val_entries [OF assms] distinct_val_entries by blast
  then have "rows_ok distinct_val (inverted_rows ob)" by (rule rows_ok_inverted_rows)
  then show ?thesis
    by (auto simp: rows_ok_def inverseNestedObject_def list_all_iff distinct_map comp_def split_def
             intro: inj_onI)
qed

lemma keys_inverseNestedObject:
  assumes "distinct_val ob"
  shows "b \<in> fst ` set (inverseNestedObject ob) \<longleftrightarrow> (\<exists>a. cell ob a b \<noteq> None)"
proof -
  have "b \<in> fst ` set (inverseNestedObject ob) \<longleftrightarrow> obj_get (inverseNestedObject ob) b \<noteq> None"
    by (simp add: map_of_eq_None_iff)
  also have "\<dots> \<longleftrightarrow> obj_get (inverted_rows ob) b \<noteq> None"
    by (simp add: obj_get_inverseNestedObject)
  also have "\<dots> \<longleftrightarrow> (\<exists>a. lookup2 (inverted_rows ob) b a \<noteq> None)"
    using has_cells_inverted_rows [of ob]
    by (auto simp: has_cells_def lookup2_def split: option.splits)
  also have "\<dots> \<longleftrightarrow> (\<exists>a. cell ob a b \<noteq> None)"
    using pivot_cell [OF assms] by (simp add: obj_get2_inverseNestedObject)
  finally show ?thesis .
qed

lemma snd_fold_level1:
  "snd (fold inverted_level1 kvs st) =
     snd st @ map fst (filter (\<lambda>kv. \<not> is_typeof_object (snd kv)) kvs)"
  by (induction kvs arbitrary: st) (simp_all add: snd_inverted_level1)

lemma warned_keys_filter:
  "warned_keys ob = map fst (filter (\<lambda>kv. \<not> is_typeof_object (snd kv)) (entries ob))"
  by (simp add: warned_keys_def inverted_loop_def snd_fold_level1)

lemma distinct_keys_inverseNestedObject: "distinct (map fst (inverseNestedObject ob))"
proof -
  have "rows_ok (\<lambda>v. True) (inverted_rows ob)" by (rule rows_ok_inverted_rows) simp
  then have "distinct (map fst (inverted_rows ob))" by (simp add: rows_ok_def)
  moreover have "map fst (inverseNestedObject ob) = map fst (inverted_rows ob)"
    by (simp add: inverseNestedObject_def comp_def split_def)
  ultimately show ?thesis by simp
qed

lemma row_inverseNestedObject:
  assumes "distinct_val ob" and "obj_get (inverseNestedObject ob) inner = Some row"
  shows "\<exists>cells. row = JObj cells \<and> distinct (map fst cells)
           \<and> (\<forall>outer. obj_get cells outer = cell ob outer inner)"
proof -
  from assms(2) obtain cells where c: "obj_get (inverted_rows ob) inner = Some cells"
    and r: "row = JObj cells"
    by (auto simp: obj_get_inverseNestedObject)
  have "rows_ok (\<lambda>v. True) (inverted_rows ob)" by (rule rows_ok_inverted_rows) simp
  moreover from c have "(inner, cells) \<in> set (inverted_rows ob)" by (rule map_of_SomeD)
  ultimately have d: "distinct (map fst cells)" unfolding rows_ok_def by fastforce
  have "obj_get cells outer = cell ob outer inner" for outer
    using pivot_cell [OF assms(1), of inner outer] c
    by (simp add: obj_get2_inverseNestedObject lookup2_def)
  with r d show ?thesis by blast
qed

text \<open>
  Claim C6, as the code has it. For every input within the scope of the embedding, the
  pivot returns a mapping with \<open>output[inner][outer] = input[outer][inner]\<close> for each pair
  whose outer value passes the guard of the pivot, an object or an array (an array is read
  under the indices of its elements), and with nothing else: the keys of the output are the
  inner keys that have such a pair, each once, every value of the output is an object, and
  the keys of that object are the outer keys that have a pair with its inner key, each
  once. The warnings on the console are the outer keys whose value is a scalar or
  \<^verbatim>\<open>null\<close>, in the order of the input, and no such key contributes to the output.
\<close>

theorem inverseNestedObject_pivot:
  assumes "json_val originalObject"
  shows "distinct (map fst (inverseNestedObject originalObject))
       \<and> (\<forall>inner. inner \<in> fst ` set (inverseNestedObject originalObject)
             \<longleftrightarrow> (\<exists>outer. cell originalObject outer inner \<noteq> None))
       \<and> (\<forall>inner row. obj_get (inverseNestedObject originalObject) inner = Some row
             \<longrightarrow> (\<exists>cells. row = JObj cells \<and> distinct (map fst cells)
                    \<and> (\<forall>outer. obj_get cells outer = cell originalObject outer inner)))
       \<and> (\<forall>outer inner. obj_get2 (inverseNestedObject originalObject) inner outer
             = cell originalObject outer inner)
       \<and> warned_keys originalObject
           = map fst (filter (\<lambda>kv. \<not> is_typeof_object (snd kv)) (entries originalObject))
       \<and> (\<forall>outer row. obj_get (entries originalObject) outer = Some row \<and> \<not> is_typeof_object row
             \<longrightarrow> outer \<in> set (warned_keys originalObject)
                 \<and> (\<forall>inner. obj_get2 (inverseNestedObject originalObject) inner outer = None))"
proof -
  have d: "distinct_val originalObject" using assms by (rule json_val_distinct_val)
  have 1: "distinct (map fst (inverseNestedObject originalObject))"
    by (rule distinct_keys_inverseNestedObject)
  have 2: "\<forall>inner. inner \<in> fst ` set (inverseNestedObject originalObject)
             \<longleftrightarrow> (\<exists>outer. cell originalObject outer inner \<noteq> None)"
    using keys_inverseNestedObject [OF d] by blast
  have 3: "\<forall>inner row. obj_get (inverseNestedObject originalObject) inner = Some row
             \<longrightarrow> (\<exists>cells. row = JObj cells \<and> distinct (map fst cells)
                    \<and> (\<forall>outer. obj_get cells outer = cell originalObject outer inner))"
    using row_inverseNestedObject [OF d] by blast
  have 4: "\<forall>outer inner. obj_get2 (inverseNestedObject originalObject) inner outer
            = cell originalObject outer inner"
    by (simp add: pivot_cell [OF d])
  have 5: "warned_keys originalObject
           = map fst (filter (\<lambda>kv. \<not> is_typeof_object (snd kv)) (entries originalObject))"
    by (rule warned_keys_filter)
  have 6: "\<forall>outer row. obj_get (entries originalObject) outer = Some row \<and> \<not> is_typeof_object row
            \<longrightarrow> outer \<in> set (warned_keys originalObject)
                \<and> (\<forall>inner. obj_get2 (inverseNestedObject originalObject) inner outer = None)"
    by (force simp: pivot_cell [OF d] cell_def warned_keys_filter dest: map_of_SomeD)
  from 1 2 3 4 5 6 show ?thesis by blast
qed

theorem inverseNestedObject_pivot_witness:
  "json_val (JObj [(''2023'', JObj [(''foo'', JStr ''-webkit-foo'')]), (''note'', JNum 1)])
   \<and> obj_get2 (inverseNestedObject (JObj [(''2023'', JObj [(''foo'', JStr ''-webkit-foo'')]), (''note'', JNum 1)]))
        ''foo'' ''2023'' = Some (JStr ''-webkit-foo'')
   \<and> ''note'' \<notin> fst ` set (inverseNestedObject (JObj [(''2023'', JObj [(''foo'', JStr ''-webkit-foo'')]), (''note'', JNum 1)]))
   \<and> warned_keys (JObj [(''2023'', JObj [(''foo'', JStr ''-webkit-foo'')]), (''note'', JNum 1)]) = [''note'']"
proof -
  let ?ob = "JObj [(''2023'', JObj [(''foo'', JStr ''-webkit-foo'')]), (''note'', JNum 1)]"
  have h: "json_val ?ob" by code_simp
  note facts = inverseNestedObject_pivot [OF h]
  have c: "cell ?ob ''2023'' ''foo'' = Some (JStr ''-webkit-foo'')" by code_simp
  have n: "\<not> (\<exists>outer. cell ?ob outer ''note'' \<noteq> None)"
    by (auto simp: cell_def split: option.splits if_splits)
  have w: "map fst (filter (\<lambda>kv. \<not> is_typeof_object (snd kv)) (entries ?ob)) = [''note'']" by simp
  from facts c have 1: "obj_get2 (inverseNestedObject ?ob) ''foo'' ''2023'' = Some (JStr ''-webkit-foo'')"
    by metis
  from facts n have 2: "''note'' \<notin> fst ` set (inverseNestedObject ?ob)" by blast
  from facts w have 3: "warned_keys ?ob = [''note'']" by metis
  from h 1 2 3 show ?thesis by blast
qed

text \<open>
  Claim C6 as stated fails on an array: the guard lets it pass, no diagnostic is printed and
  its elements reach the output under their indices.
\<close>

theorem inverseNestedObject_array_counterexample:
  "inverseNestedObject (JObj [(''a'', JArr [JNum 5])]) = [(''0'', JObj [(''a'', JNum 5)])]
   \<and> warned_keys (JObj [(''a'', JArr [JNum 5])]) = []"
  by code_simp

section \<open>Pivoting twice\<close>

lemma cell_inverseNestedObject:
  "cell (JObj (inverseNestedObject ob)) a b = obj_get2 (inverseNestedObject ob) a b"
  by (auto simp: cell_def obj_get2_def obj_get_inverseNestedObject split: option.splits)

lemma cell_objects:
  assumes "list_all (\<lambda>kv. isObject (snd kv)) m"
  shows "cell (JObj m) a b = obj_get2 m a b"
proof (cases "obj_get m a")
  case None
  then show ?thesis by (simp add: cell_def obj_get2_def)
next
  case (Some row)
  then have "(a, row) \<in> set m" by (rule map_of_SomeD)
  with assms have "isObject row" by (auto simp: list_all_iff)
  then obtain r where "row = JObj r" by (cases row) auto
  with Some show ?thesis by (simp add: cell_def obj_get2_def)
qed

text \<open>
  Claim C7, as the code has it. For every two-level mapping within the scope of the
  embedding, with globally unique inner keys and with a non-empty mapping under every
  outer key, pivoting twice gives back the original mapping: the same outer keys, an
  object under each, and the same value at every (outer, inner) pair.
\<close>

theorem inverseNestedObject_twice:
  assumes "json_val (JObj m)"
    and "list_all (\<lambda>kv. isObject (snd kv) \<and> entries (snd kv) \<noteq> []) m"
    and "unique_inner_keys m"
  shows "fst ` set (inverseNestedObject (JObj (inverseNestedObject (JObj m)))) = fst ` set m
       \<and> distinct_val (JObj (inverseNestedObject (JObj (inverseNestedObject (JObj m)))))
       \<and> list_all (\<lambda>kv. isObject (snd kv)) (inverseNestedObject (JObj (inverseNestedObject (JObj m))))
       \<and> (\<forall>outer inner. obj_get2 (inverseNestedObject (JObj (inverseNestedObject (JObj m)))) outer inner
             = obj_get2 m outer inner)"
proof -
  let ?p1 = "inverseNestedObject (JObj m)"
  let ?p2 = "inverseNestedObject (JObj ?p1)"
  have dm: "distinct_val (JObj m)" using assms(1) by (rule json_val_distinct_val)
  have d1: "distinct_val (JObj ?p1)" using dm by (rule distinct_val_inverseNestedObject)
  have d2: "distinct_val (JObj ?p2)" using d1 by (rule distinct_val_inverseNestedObject)
  have objs: "list_all (\<lambda>kv. isObject (snd kv)) m" using assms(2) by (simp add: list_all_iff)
  have cells: "obj_get2 ?p2 outer inner = obj_get2 m outer inner" for outer inner
    by (simp add: pivot_cell [OF d1] cell_inverseNestedObject pivot_cell [OF dm] cell_objects [OF objs])
  have keys: "outer \<in> fst ` set ?p2 \<longleftrightarrow> outer \<in> fst ` set m" for outer
  proof -
    have "outer \<in> fst ` set ?p2 \<longleftrightarrow> (\<exists>inner. obj_get2 m outer inner \<noteq> None)"
      by (simp add: keys_inverseNestedObject [OF d1] cell_inverseNestedObject pivot_cell [OF dm]
            cell_objects [OF objs])
    also have "\<dots> \<longleftrightarrow> outer \<in> fst ` set m"
    proof
      assume "\<exists>inner. obj_get2 m outer inner \<noteq> None"
      then have "obj_get m outer \<noteq> None"
        by (auto simp: obj_get2_def split: option.splits)
      then show "outer \<in> fst ` set m"
        by (simp add: map_of_eq_None_iff)
    next
      assume "outer \<in> fst ` set m"
      then obtain row where row: "(outer, row) \<in> set m" by auto
      with assms(2) have "isObject row" and ne: "entries row \<noteq> []" by (auto simp: list_all_iff)
      then obtain r where r: "row = JObj r" by (cases row) auto
      with ne obtain inner v where iv: "(inner, v) \<in> set r" by (cases r) auto
      from dm row r have "distinct (map fst r)" by (auto simp: list_all_iff)
      with iv have "obj_get r inner = Some v" by simp
      moreover from dm row have "obj_get m outer = Some row" by simp
      ultimately show "\<exists>inner. obj_get2 m outer inner \<noteq> None"
        using r by (auto simp: obj_get2_def)
    qed
    finally show ?thesis .
  qed
  have "list_all (\<lambda>kv. isObject (snd kv)) ?p2"
    by (auto simp: inverseNestedObject_def list_all_iff)
  with keys d2 cells show ?thesis by blast
qed

theorem inverseNestedObject_twice_witness:
  "json_val (JObj [(''a'', JObj [(''x'', JNum 1)]), (''b'', JObj [(''y'', JNum 2)])])
   \<and> unique_inner_keys [(''a'', JObj [(''x'', JNum 1)]), (''b'', JObj [(''y'', JNum 2)])]
   \<and> fst ` set (inverseNestedObject (JObj (inverseNestedObject
         (JObj [(''a'', JObj [(''x'', JNum 1)]), (''b'', JObj [(''y'', JNum 2)])])))) = {''a'', ''b''}
   \<and> obj_get2 (inverseNestedObject (JObj (inverseNestedObject
         (JObj [(''a'', JObj [(''x'', JNum 1)]), (''b'', JObj [(''y'', JNum 2)])])))) ''b'' ''y''
       = Some (JNum 2)"
proof -
  let ?m = "[(''a'', JObj [(''x'', JNum 1)]), (''b'', JObj [(''y'', JNum 2)])]"
  have h1: "json_val (JObj ?m)" by code_simp
  have h2: "list_all (\<lambda>kv. isObject (snd kv) \<and> entries (snd kv) \<noteq> []) ?m" by simp
  have h3: "unique_inner_keys ?m" by (simp add: unique_inner_keys_def)
  have k: "fst ` set ?m = {''a'', ''b''}" by simp
  have c: "obj_get2 ?m ''b'' ''y'' = Some (JNum 2)" by (simp add: obj_get2_def)
  from inverseNestedObject_twice [OF h1 h2 h3] h1 h3 k c show ?thesis by metis
qed

text \<open>
  Claim C7 as stated fails where an outer key holds the empty mapping: the pivot has no
  cell to carry that key, and the second pivot cannot bring it back.
\<close>

theorem inverseNestedObject_twice_counterexample:
  "unique_inner_keys [(''a'', JObj [])]
   \<and> inverseNestedObject (JObj (inverseNestedObject (JObj [(''a'', JObj [])]))) = []"
  by code_simp

section \<open>The pivoted view, path by path\<close>

lemma obj_get_fold_assign:
  "distinct (map fst kvs) \<Longrightarrow>
   obj_get (fold (\<lambda>kv ob. obj_set (fst kv) (f (fst kv) (snd kv)) ob) kvs ob) k =
     (case obj_get kvs k of Some v \<Rightarrow> Some (f k v) | None \<Rightarrow> obj_get ob k)"
proof (induction kvs arbitrary: ob)
  case Nil
  then show ?case by simp
next
  case (Cons kv kvs)
  obtain k0 v0 where kv: "kv = (k0, v0)" by (cases kv)
  from Cons.prems kv have d: "distinct (map fst kvs)" and nk: "obj_get kvs k0 = None"
    by (auto simp: map_of_eq_None_iff)
  show ?case
    using Cons.IH [OF d, of "obj_set k0 (f k0 v0) ob"] nk
    by (auto simp: kv obj_get_obj_set split: option.splits)
qed

lemma obj_get_reduce_assign:
  "distinct (map fst kvs) \<Longrightarrow> obj_get (reduce_assign f kvs) k = map_option (f k) (obj_get kvs k)"
  by (simp add: reduce_assign_def obj_get_fold_assign split: option.splits)

lemma keys_fold_assign:
  "fst ` set (fold (\<lambda>kv ob. obj_set (fst kv) (f (fst kv) (snd kv)) ob) kvs ob) = fst ` set kvs \<union> fst ` set ob"
  by (induction kvs arbitrary: ob) (auto simp: keys_obj_set)

lemma keys_reduce_assign: "fst ` set (reduce_assign f kvs) = fst ` set kvs"
  by (simp add: reduce_assign_def keys_fold_assign)

lemma distinct_fold_assign:
  "distinct (map fst ob) \<Longrightarrow>
   distinct (map fst (fold (\<lambda>kv ob. obj_set (fst kv) (f (fst kv) (snd kv)) ob) kvs ob))"
  by (induction kvs arbitrary: ob) (simp_all add: distinct_obj_set)

lemma distinct_reduce_assign: "distinct (map fst (reduce_assign f kvs))"
  by (simp add: reduce_assign_def distinct_fold_assign)

lemma path_get_reduce_assign:
  "distinct (map fst kvs) \<Longrightarrow>
   path_get (JObj (reduce_assign f kvs)) (k # rest) =
     (case obj_get kvs k of Some v \<Rightarrow> path_get (f k v) rest | None \<Rightarrow> None)"
  by (simp add: obj_get_reduce_assign split: option.splits)

lemma cell_not_object: "\<not> is_typeof_object ob \<Longrightarrow> cell ob a b = None"
proof (cases ob)
  case (JStr s)
  show ?thesis
  proof (cases "obj_get (entries ob) a")
    case None
    then show ?thesis by (simp add: cell_def)
  next
    case (Some row)
    then have "(a, row) \<in> set (indexed (map (\<lambda>c. JStr [c]) s))"
      using JStr by (auto dest: map_of_SomeD)
    then have "row \<in> set (map (\<lambda>c. JStr [c]) s)" by (rule in_indexed)
    then have "\<not> is_typeof_object row" by auto
    with Some show ?thesis by (simp add: cell_def)
  qed
qed (simp_all add: cell_def)

lemma path_get_cell:
  "path_get ob (a # b # rest) = (case cell ob a b of Some x \<Rightarrow> path_get x rest | None \<Rightarrow> None)"
proof (cases "is_typeof_object ob")
  case True
  then show ?thesis by (auto simp: cell_def split: option.splits)
next
  case False
  then show ?thesis by (simp add: cell_not_object)
qed

lemma path_get_pivot:
  assumes "distinct_val ob"
  shows "path_get (JObj (inverseNestedObject ob)) (b # a # rest) = path_get ob (a # b # rest)"
  by (simp only: path_get_cell cell_inverseNestedObject pivot_cell [OF assms])

lemma inverseNestedObject_value:
  assumes "distinct_val ob" and "obj_get (inverseNestedObject ob) b = Some v"
  shows "distinct_val v"
proof -
  from assms(2) have "(b, v) \<in> set (inverseNestedObject ob)" by (rule map_of_SomeD)
  with distinct_val_inverseNestedObject [OF assms(1)] show ?thesis
    by (auto simp: list_all_iff)
qed

lemma distinct_inverseNestedObject:
  "distinct_val ob \<Longrightarrow> distinct (map fst (inverseNestedObject ob))"
  using distinct_val_inverseNestedObject [of ob] by simp

lemma path_get_switched3_other:
  assumes "distinct_val v2" and "k2 \<noteq> ''values.json''"
  shows "path_get (switched3 k2 v2) (k3 # vendor # rest) = path_get v2 (vendor # k3 # rest)"
proof -
  have "path_get (switched3 k2 v2) (k3 # vendor # rest)
          = path_get (JObj (inverseNestedObject v2)) (k3 # vendor # rest)"
    using assms(2)
    by (simp add: switched3_def obj_get_reduce_assign distinct_inverseNestedObject [OF assms(1)]
             split: option.splits)
  then show ?thesis by (simp only: path_get_pivot [OF assms(1)])
qed

lemma path_get_switched3_values:
  assumes "distinct_val v2"
  shows "path_get (switched3 ''values.json'' v2) (k3 # sub # vendor # rest)
           = path_get v2 (vendor # k3 # sub # rest)"
proof -
  have "path_get (switched3 ''values.json'' v2) (k3 # sub # vendor # rest)
          = path_get (JObj (inverseNestedObject v2)) (k3 # vendor # sub # rest)"
  proof (cases "obj_get (inverseNestedObject v2) k3")
    case None
    then show ?thesis
      by (simp add: switched3_def obj_get_reduce_assign distinct_inverseNestedObject [OF assms])
  next
    case (Some v3)
    then have d3: "distinct_val v3" using assms by (auto intro: inverseNestedObject_value)
    have "path_get (switched3 ''values.json'' v2) (k3 # sub # vendor # rest)
            = path_get (JObj (inverseNestedObject v3)) (sub # vendor # rest)"
      using Some
      by (simp add: switched3_def obj_get_reduce_assign distinct_inverseNestedObject [OF assms])
    also have "\<dots> = path_get v3 (vendor # sub # rest)" by (rule path_get_pivot [OF d3])
    also have "\<dots> = path_get (JObj (inverseNestedObject v2)) (k3 # vendor # sub # rest)"
      using Some by simp
    finally show ?thesis .
  qed
  then show ?thesis by (simp only: path_get_pivot [OF assms])
qed

lemma path_get_switched2:
  assumes "distinct_val v1"
    and "\<And>v2. distinct_val v2 \<Longrightarrow> path_get (switched3 k2 v2) (p3 @ vendor # rest) = path_get v2 (vendor # p3 @ rest)"
  shows "path_get (switched2 v1) (k2 # p3 @ vendor # rest) = path_get v1 (vendor # k2 # p3 @ rest)"
proof -
  have "path_get (switched2 v1) (k2 # p3 @ vendor # rest)
          = path_get (JObj (inverseNestedObject v1)) (k2 # vendor # p3 @ rest)"
  proof (cases "obj_get (inverseNestedObject v1) k2")
    case None
    then show ?thesis
      by (simp add: switched2_def obj_get_reduce_assign distinct_inverseNestedObject [OF assms(1)])
  next
    case (Some v2)
    then have d2: "distinct_val v2" using assms(1) by (auto intro: inverseNestedObject_value)
    show ?thesis
      using Some assms(2) [OF d2]
      by (simp add: switched2_def obj_get_reduce_assign distinct_inverseNestedObject [OF assms(1)])
  qed
  then show ?thesis by (simp only: path_get_pivot [OF assms(1)])
qed

lemma path_get_switched1:
  assumes "distinct_val v0"
    and "\<And>v2. distinct_val v2 \<Longrightarrow> path_get (switched3 k2 v2) (p3 @ vendor # rest) = path_get v2 (vendor # p3 @ rest)"
  shows "path_get (switched1 v0) (k1 # k2 # p3 @ vendor # rest) = path_get v0 (vendor # k1 # k2 # p3 @ rest)"
proof -
  have "path_get (switched1 v0) (k1 # k2 # p3 @ vendor # rest)
          = path_get (JObj (inverseNestedObject v0)) (k1 # vendor # k2 # p3 @ rest)"
  proof (cases "obj_get (inverseNestedObject v0) k1")
    case None
    then show ?thesis
      by (simp add: switched1_def obj_get_reduce_assign distinct_inverseNestedObject [OF assms(1)])
  next
    case (Some v1)
    then have d1: "distinct_val v1" using assms(1) by (auto intro: inverseNestedObject_value)
    show ?thesis
      using Some path_get_switched2 [OF d1 assms(2)]
      by (simp add: switched1_def obj_get_reduce_assign distinct_inverseNestedObject [OF assms(1)])
  qed
  then show ?thesis by (simp only: path_get_pivot [OF assms(1)])
qed

lemma path_get_switched:
  assumes "distinct_val (JObj objectTree)"
    and "\<And>v2. distinct_val v2 \<Longrightarrow> path_get (switched3 k2 v2) (p3 @ vendor # rest) = path_get v2 (vendor # p3 @ rest)"
  shows "path_get (JObj (switched objectTree)) (k0 # k1 # k2 # p3 @ vendor # rest)
           = path_get (JObj objectTree) (k0 # vendor # k1 # k2 # p3 @ rest)"
proof (cases "obj_get objectTree k0")
  case None
  then show ?thesis
    using assms(1) by (simp add: switched_def obj_get_reduce_assign)
next
  case (Some v0)
  then have "(k0, v0) \<in> set objectTree" by (rule map_of_SomeD)
  with assms(1) have d0: "distinct_val v0" by (auto simp: list_all_iff)
  show ?thesis
    using Some assms(1) path_get_switched1 [OF d0 assms(2)]
    by (simp add: switched_def obj_get_reduce_assign)
qed

text \<open>
  Claim C5, as the code has it. The fourth pivot follows the key that the second pivot
  brings up. With the registry laid out as platform, contributor, year, group file, that
  key is the name of the group file, and for every registry tree within the scope of the
  embedding: under a group other than \<^verbatim>\<open>values.json\<close> the pivoted view holds, at platform,
  year, group, key, contributor, the value that the registry holds at platform, contributor,
  year, group, key (three pivots); under \<^verbatim>\<open>values.json\<close> it holds, at platform, year, group,
  key, sub-key, contributor, the value that the registry holds at platform, contributor, year,
  group, key, sub-key (one pivot more, one level deeper).
\<close>

theorem extra_pivot_on_values_group:
  assumes "json_val (JObj objectTree)"
  shows "(grp \<noteq> ''values.json'' \<longrightarrow>
            path_get (JObj (switched objectTree)) [platform, year, grp, key, vendor]
              = path_get (JObj objectTree) [platform, vendor, year, grp, key])
       \<and> (grp = ''values.json'' \<longrightarrow>
            path_get (JObj (switched objectTree)) [platform, year, grp, key, sub, vendor]
              = path_get (JObj objectTree) [platform, vendor, year, grp, key, sub])"
proof -
  have d: "distinct_val (JObj objectTree)" using assms by (rule json_val_distinct_val)
  have 1: "path_get (JObj (switched objectTree)) [platform, year, grp, key, vendor]
              = path_get (JObj objectTree) [platform, vendor, year, grp, key]"
    if "grp \<noteq> ''values.json''"
    using path_get_switched [OF d, of grp "[key]" vendor "[]" platform year]
          path_get_switched3_other [OF _ that, of _ key vendor "[]"]
    by simp
  have 2: "path_get (JObj (switched objectTree)) [platform, year, ''values.json'', key, sub, vendor]
              = path_get (JObj objectTree) [platform, vendor, year, ''values.json'', key, sub]"
    using path_get_switched [OF d, of "''values.json''" "[key, sub]" vendor "[]" platform year]
          path_get_switched3_values [of _ key sub vendor "[]"]
    by simp
  from 1 2 show ?thesis by blast
qed

theorem extra_pivot_on_values_group_witness:
  \<open>json_val (JObj [(''webkit'',
       JObj [(''safari'',
              JObj [(''2024'',
                     JObj [(''classes.json'', JObj [(''bar'', JStr ''-webkit-bar'')]),
                           (''values.json'', JObj [(''display'', JObj [(''flex'', JStr ''-webkit-flex'')])])])])])])
   \<and> path_get (JObj (switched [(''webkit'',
       JObj [(''safari'',
              JObj [(''2024'',
                     JObj [(''classes.json'', JObj [(''bar'', JStr ''-webkit-bar'')]),
                           (''values.json'', JObj [(''display'', JObj [(''flex'', JStr ''-webkit-flex'')])])])])])]))
        [''webkit'', ''2024'', ''classes.json'', ''bar'', ''safari''] = Some (JStr ''-webkit-bar'')
   \<and> path_get (JObj (switched [(''webkit'',
       JObj [(''safari'',
              JObj [(''2024'',
                     JObj [(''classes.json'', JObj [(''bar'', JStr ''-webkit-bar'')]),
                           (''values.json'', JObj [(''display'', JObj [(''flex'', JStr ''-webkit-flex'')])])])])])]))
        [''webkit'', ''2024'', ''values.json'', ''display'', ''flex'', ''safari''] = Some (JStr ''-webkit-flex'')\<close>
proof -
  let ?T = "[(''webkit'',
       JObj [(''safari'',
              JObj [(''2024'',
                     JObj [(''classes.json'', JObj [(''bar'', JStr ''-webkit-bar'')]),
                           (''values.json'', JObj [(''display'', JObj [(''flex'', JStr ''-webkit-flex'')])])])])])]"
  have h: "json_val (JObj ?T)" by code_simp
  have n: "''classes.json'' \<noteq> ''values.json''" by simp
  have 1: "path_get (JObj ?T) [''webkit'', ''safari'', ''2024'', ''classes.json'', ''bar''] = Some (JStr ''-webkit-bar'')"
    by simp
  have 2: "path_get (JObj ?T) [''webkit'', ''safari'', ''2024'', ''values.json'', ''display'', ''flex'']
             = Some (JStr ''-webkit-flex'')"
    by simp
  from extra_pivot_on_values_group [OF h, where grp = "''classes.json''" and platform = "''webkit''"
      and year = "''2024''" and key = "''bar''" and vendor = "''safari''"] n 1
  have a: "path_get (JObj (switched ?T)) [''webkit'', ''2024'', ''classes.json'', ''bar'', ''safari'']
             = Some (JStr ''-webkit-bar'')"
    by simp
  from extra_pivot_on_values_group [OF h, where grp = "''values.json''" and platform = "''webkit''"
      and year = "''2024''" and key = "''display''" and sub = "''flex''" and vendor = "''safari''"] 2
  have b: "path_get (JObj (switched ?T)) [''webkit'', ''2024'', ''values.json'', ''display'', ''flex'', ''safari'']
             = Some (JStr ''-webkit-flex'')"
    by simp
  from h a b show ?thesis by blast
qed

text \<open>
  Claim C5 as stated fails where the year folders lie directly under the platform. The
  test of the fourth pivot reads the key that the second pivot brings up, which is then a
  key of the payload and not the name of the group file: the payload of a
  \<^verbatim>\<open>values.json\<close> goes through three pivots only, and the payload of a \<^verbatim>\<open>classes.json\<close>
  goes through four under a key of its own named \<^verbatim>\<open>values.json\<close>.
\<close>

theorem extra_pivot_by_year_counterexample:
  \<open>switched [(''webkit'',
       JObj [(''2024'', JObj [(''values.json'', JObj [(''display'', JObj [(''flex'', JStr ''-webkit-flex'')])])])])]
     = [(''webkit'',
         JObj [(''values.json'', JObj [(''display'', JObj [(''flex'', JObj [(''2024'', JStr ''-webkit-flex'')])])])])]
   \<and> switched [(''webkit'',
       JObj [(''2024'', JObj [(''classes.json'', JObj [(''values.json'', JObj [(''a'', JObj [(''b'', JStr ''c'')])])])])])]
     = [(''webkit'',
         JObj [(''classes.json'', JObj [(''values.json'', JObj [(''a'', JObj [(''b'', JObj [(''2024'', JStr ''c'')])])])])])]\<close>
  by code_simp

section \<open>Deep merge, key by key\<close>

lemma json_copy_id: "json_val v \<Longrightarrow> json_copy v = v"
proof (induction v rule: json_val.induct)
  case 1
  then show ?case by simp
next
  case (2 kvs)
  then have "\<forall>kv\<in>set kvs. snd kv \<noteq> JUndefined \<and> json_copy (snd kv) = snd kv"
    by (auto simp: list_all_iff)
  then have "filter (\<lambda>(k, v). v \<noteq> JUndefined) kvs = kvs"
    and "map (\<lambda>(k, v). (k, json_copy v)) kvs = kvs"
    by (auto simp: filter_id_conv map_idI split_def)
  then show ?case by simp
next
  case (3 xs)
  then have "\<forall>v\<in>set xs. v \<noteq> JUndefined \<and> json_copy v = v"
    by (auto simp: list_all_iff)
  then have "map (\<lambda>v. if v = JUndefined then JNull else json_copy v) xs = xs"
    by (simp add: map_idI)
  then show ?case by simp
qed simp_all

text \<open>
  A source that has a property named \<^verbatim>\<open>hasOwnProperty\<close> ends the loop at its first key,
  whatever the target holds.
\<close>

lemma merge_entries_throws:
  "obj_get source ''hasOwnProperty'' \<noteq> None \<Longrightarrow> kvs \<noteq> [] \<Longrightarrow>
   merge_entries source kvs target = Inl TypeError"
  by (cases kvs) auto

lemma merge_entries_step:
  "obj_get source ''hasOwnProperty'' = None \<Longrightarrow>
   merge_entries source ((key, sourceValue) # rest) target =
     (case merged_value sourceValue (obj_get target key) of
        Inl e \<Rightarrow> Inl e
      | Inr v \<Rightarrow> merge_entries source rest (obj_set key v target))"
  by (cases sourceValue)
     (auto simp: merged_value_def split: option.splits jsval.splits sum.splits)

lemma obj_get_merge_entries:
  "distinct (map fst kvs) \<Longrightarrow> obj_get source ''hasOwnProperty'' = None \<Longrightarrow>
   merge_entries source kvs target = Inr merged \<Longrightarrow>
   (case obj_get kvs key of
      None \<Rightarrow> obj_get merged key = obj_get target key
    | Some sourceValue \<Rightarrow>
        (\<exists>v. merged_value sourceValue (obj_get target key) = Inr v \<and> obj_get merged key = Some v))"
proof (induction kvs arbitrary: target)
  case Nil
  then show ?case by simp
next
  case (Cons kv kvs)
  obtain k sv where kv: "kv = (k, sv)" by (cases kv)
  from Cons.prems kv have d: "distinct (map fst kvs)" and nk: "obj_get kvs k = None"
    by (auto simp: map_of_eq_None_iff)
  from Cons.prems(3) obtain v where v: "merged_value sv (obj_get target k) = Inr v"
    and r: "merge_entries source kvs (obj_set k v target) = Inr merged"
    unfolding kv merge_entries_step [OF Cons.prems(2)] by (auto split: sum.splits)
  show ?case
    using Cons.IH [OF d Cons.prems(2) r] nk v
    by (auto simp: kv obj_get_obj_set split: option.splits)
qed

lemma json_val_no_guard:
  "json_val (JObj s) \<Longrightarrow> obj_get s ''hasOwnProperty'' = None \<and> list_all (\<lambda>kv. json_val (snd kv)) s"
  by (auto simp: list_all_iff map_of_eq_None_iff proto_names_def)

lemma merge_entries_returns:
  "obj_get source ''hasOwnProperty'' = None \<Longrightarrow> list_all (\<lambda>kv. json_val (snd kv)) kvs \<Longrightarrow>
   \<exists>merged. merge_entries source kvs target = Inr merged"
proof (induction source kvs target rule: merge_entries.induct)
  case (1 source target)
  then show ?case by simp
next
  case (2 source key sourceValue rest target)
  note g = "2.prems"(1)
  from "2.prems"(2) have js: "json_val sourceValue" and jr: "list_all (\<lambda>kv. json_val (snd kv)) rest"
    by simp_all
  show ?case
  proof (cases sourceValue)
    case (JObj s)
    from js JObj have ns: "obj_get s ''hasOwnProperty'' = None"
      and ls: "list_all (\<lambda>kv. json_val (snd kv)) s"
      using json_val_no_guard by blast+
    show ?thesis
    proof (cases "\<exists>t. obj_get target key = Some (JObj t)")
      case True
      then obtain t where t: "obj_get target key = Some (JObj t)" by blast
      have "\<exists>t'. merge_entries s s t = Inr t'"
        using "2.IH" g JObj t ns ls by auto
      then obtain t' where t': "merge_entries s s t = Inr t'" by blast
      have "\<exists>merged. merge_entries source rest (obj_set key (JObj t') target) = Inr merged"
        using "2.IH" g JObj t t' jr by auto
      then show ?thesis using g JObj t t' by simp
    next
      case False
      have "\<exists>merged. merge_entries source rest (obj_set key (json_copy sourceValue) target) = Inr merged"
        using "2.IH" g JObj False jr
        by (cases "obj_get target key"; cases "the (obj_get target key)") auto
      then show ?thesis using g JObj False
        by (auto split: option.splits jsval.splits)
    qed
  next
    case JUndefined
    then show ?thesis using "2.IH" g jr by simp
  next
    case JNull
    then show ?thesis using "2.IH" g jr by simp
  next
    case (JBool b)
    then show ?thesis using "2.IH" g jr by simp
  next
    case (JNum n)
    then show ?thesis using "2.IH" g jr by simp
  next
    case (JStr x)
    then show ?thesis using "2.IH" g jr by simp
  next
    case (JArr xs)
    then show ?thesis using "2.IH" g jr by simp
  qed
qed

lemma deepMerge_sources:
  "deepMerge target (s # ss) =
     (case deepMerge target [s] of Inl e \<Rightarrow> Inl e | Inr merged \<Rightarrow> deepMerge merged ss)"
  by (simp split: sum.splits)

text \<open>
  Where no key of the source is named like a member of \<^verbatim>\<open>Object.prototype\<close>, the merge
  returns, and each source key is handled by one of three cases. Both values are non-array
  mappings and are merged recursively; only the source value is one and the target takes a
  copy of it, equal to it in value; otherwise the source value replaces the target value,
  an array as a whole. Keys that the source does not have keep their values.
\<close>

lemma deepMerge_cases:
  assumes "json_val (JObj source)"
  shows "\<exists>merged. deepMerge target [JObj source] = Inr merged
       \<and> (\<forall>key. obj_get source key = None \<longrightarrow> obj_get merged key = obj_get target key)
       \<and> (\<forall>key sourceValue t.
             obj_get source key = Some sourceValue \<and> isObject sourceValue
             \<and> obj_get target key = Some (JObj t)
             \<longrightarrow> (\<exists>m. deepMerge t [sourceValue] = Inr m \<and> obj_get merged key = Some (JObj m)))
       \<and> (\<forall>key sourceValue.
             obj_get source key = Some sourceValue \<and> isObject sourceValue
             \<and> (\<forall>t. obj_get target key \<noteq> Some (JObj t))
             \<longrightarrow> obj_get merged key = Some (json_copy sourceValue) \<and> json_copy sourceValue = sourceValue)
       \<and> (\<forall>key sourceValue.
             obj_get source key = Some sourceValue \<and> \<not> isObject sourceValue
             \<longrightarrow> obj_get merged key = Some sourceValue)"
proof -
  have d: "distinct (map fst source)" using assms by simp
  from json_val_no_guard [OF assms] have g: "obj_get source ''hasOwnProperty'' = None"
    and l: "list_all (\<lambda>kv. json_val (snd kv)) source" by simp_all
  from merge_entries_returns [OF g l] obtain merged
    where m: "merge_entries source source target = Inr merged" by blast
  note at = obj_get_merge_entries [OF d g m]
  have copy: "json_copy sv = sv" if "obj_get source key = Some sv" for key sv
  proof -
    from that have "(key, sv) \<in> set source" by (rule map_of_SomeD)
    with l have "json_val sv" by (auto simp: list_all_iff)
    then show ?thesis by (rule json_copy_id)
  qed
  have 1: "obj_get merged key = obj_get target key" if "obj_get source key = None" for key
    using at [of key] that by simp
  have 2: "\<exists>m. deepMerge t [sv] = Inr m \<and> obj_get merged key = Some (JObj m)"
    if "obj_get source key = Some sv" "isObject sv" "obj_get target key = Some (JObj t)" for key sv t
    using at [of key] that
    by (cases sv) (auto simp: merged_value_def split: sum.splits)
  have 3: "obj_get merged key = Some (json_copy sv) \<and> json_copy sv = sv"
    if "obj_get source key = Some sv" "isObject sv" "\<forall>t. obj_get target key \<noteq> Some (JObj t)" for key sv
    using at [of key] that copy [OF that(1)]
    by (cases sv) (auto simp: merged_value_def split: option.splits jsval.splits)
  have 4: "obj_get merged key = Some sv"
    if "obj_get source key = Some sv" "\<not> isObject sv" for key sv
    using at [of key] that
    by (cases sv) (auto simp: merged_value_def)
  from m have "deepMerge target [JObj source] = Inr merged" by simp
  with 1 2 3 4 show ?thesis by blast
qed

text \<open>
  The three examples of the specification, each read both ways: merging the second mapping
  into the first, and merging both into the empty mapping.
\<close>

lemma deepMerge_examples:
  "deepMerge [(''a'', JNum 1)] [JObj [(''a'', JNum 2)]] = Inr [(''a'', JNum 2)]
   \<and> deepMerge [(''a'', JObj [(''x'', JNum 1)])] [JObj [(''a'', JObj [(''y'', JNum 2)])]]
       = Inr [(''a'', JObj [(''x'', JNum 1), (''y'', JNum 2)])]
   \<and> deepMerge [(''a'', JArr [JNum 1, JNum 2])] [JObj [(''a'', JArr [JNum 3])]]
       = Inr [(''a'', JArr [JNum 3])]
   \<and> deepMerge [] [JObj [(''a'', JNum 1)], JObj [(''a'', JNum 2)]] = Inr [(''a'', JNum 2)]
   \<and> deepMerge [] [JObj [(''a'', JObj [(''x'', JNum 1)])], JObj [(''a'', JObj [(''y'', JNum 2)])]]
       = Inr [(''a'', JObj [(''x'', JNum 1), (''y'', JNum 2)])]
   \<and> deepMerge [] [JObj [(''a'', JArr [JNum 1, JNum 2])], JObj [(''a'', JArr [JNum 3])]]
       = Inr [(''a'', JArr [JNum 3])]"
  by code_simp

section \<open>Deep merge in the store: the copy shares nothing\<close>

lemma closed_from_iff:
  "closed_from lo h \<longleftrightarrow>
     (\<forall>a. lo \<le> a \<and> a < length h \<longrightarrow> list_all (refs_in lo (length h)) (node_vals (h ! a)))"
proof
  assume c: "closed_from lo h"
  show "\<forall>a. lo \<le> a \<and> a < length h \<longrightarrow> list_all (refs_in lo (length h)) (node_vals (h ! a))"
  proof (intro allI impI)
    fix a assume a: "lo \<le> a \<and> a < length h"
    then have "a - lo < length (drop lo h)" and "drop lo h ! (a - lo) = h ! a" by auto
    with c show "list_all (refs_in lo (length h)) (node_vals (h ! a))"
      unfolding closed_from_def list_all_length by metis
  qed
next
  assume "\<forall>a. lo \<le> a \<and> a < length h \<longrightarrow> list_all (refs_in lo (length h)) (node_vals (h ! a))"
  then show "closed_from lo h"
    unfolding closed_from_def list_all_length by auto
qed

lemma refs_in_mono: "refs_in lo hi v \<Longrightarrow> lo' \<le> lo \<Longrightarrow> hi \<le> hi' \<Longrightarrow> refs_in lo' hi' v"
  by (cases v) auto

lemma list_all_refs_in_mono:
  "list_all (refs_in lo hi) vs \<Longrightarrow> lo' \<le> lo \<Longrightarrow> hi \<le> hi' \<Longrightarrow> list_all (refs_in lo' hi') vs"
  by (auto simp: list_all_iff intro: refs_in_mono)

lemma allocated_refl: "allocated h h"
  by (auto simp: allocated_def)

lemma allocated_length: "allocated h h1 \<Longrightarrow> length h \<le> length h1"
  by (auto simp: allocated_def)

lemma allocated_trans:
  assumes "allocated h h1" and "allocated h1 h2"
  shows "allocated h h2"
proof -
  from assms obtain e1 e2 where e: "h1 = h @ e1" "h2 = h1 @ e2" by (auto simp: allocated_def)
  have l: "length h \<le> length h1" "length h1 \<le> length h2" using e by simp_all
  have "list_all (refs_in (length h) (length h2)) (node_vals (h2 ! a))"
    if a: "length h \<le> a" "a < length h2" for a
  proof (cases "a < length h1")
    case True
    then have "h2 ! a = h1 ! a" using e(2) by (simp add: nth_append)
    moreover have "list_all (refs_in (length h) (length h1)) (node_vals (h1 ! a))"
      using assms(1) a(1) True by (auto simp: allocated_def)
    ultimately show ?thesis using l by (auto intro: list_all_refs_in_mono)
  next
    case False
    then have "list_all (refs_in (length h1) (length h2)) (node_vals (h2 ! a))"
      using assms(2) a(2) by (auto simp: allocated_def)
    then show ?thesis using l by (auto intro: list_all_refs_in_mono)
  qed
  moreover have "\<exists>ext. h2 = h @ ext" using e by simp
  ultimately show ?thesis by (simp add: allocated_def)
qed

lemma allocated_snoc:
  assumes "allocated h h1" and "list_all (refs_in (length h) (length h1)) (node_vals n)"
  shows "allocated h (h1 @ [n])"
proof -
  from assms(1) obtain e1 where e: "h1 = h @ e1" by (auto simp: allocated_def)
  have "list_all (refs_in (length h) (length (h1 @ [n]))) (node_vals ((h1 @ [n]) ! a))"
    if a: "length h \<le> a" "a < length (h1 @ [n])" for a
  proof (cases "a < length h1")
    case True
    then have "list_all (refs_in (length h) (length h1)) (node_vals (h1 ! a))"
      using assms(1) a(1) by (auto simp: allocated_def)
    with True show ?thesis by (auto simp: nth_append intro: list_all_refs_in_mono)
  next
    case False
    with a(2) have "a = length h1" by simp
    with assms(2) show ?thesis by (auto intro: list_all_refs_in_mono)
  qed
  moreover have "\<exists>ext. h1 @ [n] = h @ ext" using e by simp
  ultimately show ?thesis by (simp add: allocated_def)
qed

lemma alloc_fresh:
  "alloc_val x h = (r, h1) \<Longrightarrow> allocated h h1 \<and> refs_in (length h) (length h1) r"
  "alloc_props kvs h = (ps, h1) \<Longrightarrow> allocated h h1 \<and> list_all (refs_in (length h) (length h1)) (map snd ps)"
  "alloc_elems xs h = (rs, h1) \<Longrightarrow> allocated h h1 \<and> list_all (refs_in (length h) (length h1)) rs"
proof (induction x h and kvs h and xs h arbitrary: r h1 and ps h1 and rs h1
       rule: alloc_val_alloc_props_alloc_elems.induct)
  case (6 xs h)
  obtain rs h0 where a: "alloc_elems xs h = (rs, h0)" by (cases "alloc_elems xs h")
  with 6 have i: "allocated h h0" "list_all (refs_in (length h) (length h0)) rs" by auto
  from 6(2) a have "r = HRef (length h0)" "h1 = h0 @ [HArray rs]" by auto
  with i allocated_snoc [OF i(1), of "HArray rs"] allocated_length [OF i(1)] show ?case by simp
next
  case (7 kvs h)
  obtain ps h0 where a: "alloc_props kvs h = (ps, h0)" by (cases "alloc_props kvs h")
  with 7 have i: "allocated h h0" "list_all (refs_in (length h) (length h0)) (map snd ps)" by auto
  from 7(2) a have "r = HRef (length h0)" "h1 = h0 @ [HObject ps]" by auto
  with i allocated_snoc [OF i(1), of "HObject ps"] allocated_length [OF i(1)] show ?case by simp
next
  case (9 k v kvs h)
  obtain r0 h0 where a: "alloc_val v h = (r0, h0)" by (cases "alloc_val v h")
  obtain ps0 h2 where b: "alloc_props kvs h0 = (ps0, h2)" by (cases "alloc_props kvs h0")
  from 9(1) [OF a] have i1: "allocated h h0" "refs_in (length h) (length h0) r0" by auto
  from 9(2) [OF a [symmetric] b] have i2: "allocated h0 h2"
      "list_all (refs_in (length h0) (length h2)) (map snd ps0)" by auto
  from 9(3) a b have e: "ps = (k, r0) # ps0" "h1 = h2" by auto
  have l: "length h \<le> length h0" "length h0 \<le> length h2"
    using i1(1) i2(1) by (auto dest: allocated_length)
  show ?case
    unfolding e using allocated_trans [OF i1(1) i2(1)] i1(2) i2(2) l
    by (auto intro: refs_in_mono list_all_refs_in_mono)
next
  case (11 v vs h)
  obtain r0 h0 where a: "alloc_val v h = (r0, h0)" by (cases "alloc_val v h")
  obtain rs0 h2 where b: "alloc_elems vs h0 = (rs0, h2)" by (cases "alloc_elems vs h0")
  from 11(1) [OF a] have i1: "allocated h h0" "refs_in (length h) (length h0) r0" by auto
  from 11(2) [OF a [symmetric] b] have i2: "allocated h0 h2"
      "list_all (refs_in (length h0) (length h2)) rs0" by auto
  from 11(3) a b have e: "rs = r0 # rs0" "h1 = h2" by auto
  have l: "length h \<le> length h0" "length h0 \<le> length h2"
    using i1(1) i2(1) by (auto dest: allocated_length)
  show ?case
    unfolding e using allocated_trans [OF i1(1) i2(1)] i1(2) i2(2) l
    by (auto intro: refs_in_mono list_all_refs_in_mono)
qed (auto simp: allocated_refl)

lemma reach_lt: "reach h v a \<Longrightarrow> a < length h"
  by (induction rule: reach.induct) auto

lemma reach_fresh:
  assumes "reach h v a" and "refs_in lo (length h) v" and "closed_from lo h"
  shows "lo \<le> a"
  using assms
proof (induction rule: reach.induct)
  case (reach_root a)
  then show ?case by simp
next
  case (reach_step v a b)
  then have "lo \<le> a" and "a < length h" by (auto dest: reach_lt)
  with reach_step.prems(2) have "list_all (refs_in lo (length h)) (node_vals (h ! a))"
    by (simp add: closed_from_iff)
  with reach_step.hyps(2) have "refs_in lo (length h) (HRef b)" by (auto simp: list_all_iff)
  then show ?case by simp
qed

lemma allocated_closed_from: "allocated h h1 \<Longrightarrow> closed_from (length h) h1"
  by (simp add: allocated_def closed_from_iff)

lemma closed_from_update: "closed_from lo h \<Longrightarrow> t < lo \<Longrightarrow> closed_from lo (h[t := n])"
  by (simp add: closed_from_iff)

lemma reach_old:
  assumes r: "reach h' v a"
    and wf: "closed_from 0 h"
    and h': "h' = (h @ ext)[t := n]"
    and root: "refs_in 0 (length h) v"
    and sep: "\<not> reach h v t"
  shows "reach h v a"
  using r root sep
proof (induction rule: reach.induct)
  case (reach_root a)
  then show ?case by (auto intro: reach.reach_root)
next
  case (reach_step v a b)
  then have ra: "reach h v a" by simp
  then have lt: "a < length h" by (rule reach_lt)
  from ra reach_step.prems(2) have "a \<noteq> t" by auto
  then have "h' ! a = h ! a" using lt by (simp add: h' nth_append)
  with reach_step.hyps(2) have m: "HRef b \<in> set (node_vals (h ! a))" by simp
  from wf lt have "list_all (refs_in 0 (length h)) (node_vals (h ! a))" by (simp add: closed_from_iff)
  with m have "b < length h" by (auto simp: list_all_iff)
  with ra m show ?case by (rule reach.reach_step)
qed

lemma read_mono_Suc:
  "read_val n h v = Some x \<Longrightarrow> read_val (Suc n) h v = Some x"
  "read_list n h vs = Some xs \<Longrightarrow> read_list (Suc n) h vs = Some xs"
proof (induction n h v and n h vs arbitrary: x and xs rule: read_val_read_list.induct)
  case (7 n h a)
  then show ?case
    by (auto split: option.splits hnode.splits)
next
  case (9 n h v vs)
  then show ?case
    by (auto split: option.splits)
qed auto

lemma read_val_mono: "read_val n h v = Some x \<Longrightarrow> n \<le> m \<Longrightarrow> read_val m h v = Some x"
  by (induction m) (auto simp: le_Suc_eq read_mono_Suc)

lemma read_list_mono: "read_list n h vs = Some xs \<Longrightarrow> n \<le> m \<Longrightarrow> read_list m h vs = Some xs"
  by (induction m) (auto simp: le_Suc_eq read_mono_Suc)

lemma node_at_append: "node_at h a = Some n \<Longrightarrow> node_at (h @ ext) a = Some n"
  by (auto simp: node_at_def nth_append split: if_splits)

lemma read_append:
  "read_val n h v = Some x \<Longrightarrow> read_val n (h @ ext) v = Some x"
  "read_list n h vs = Some xs \<Longrightarrow> read_list n (h @ ext) vs = Some xs"
proof (induction n h v and n h vs arbitrary: x and xs rule: read_val_read_list.induct)
  case (7 n h a)
  then show ?case
    by (auto simp: node_at_append split: option.splits hnode.splits)
next
  case (9 n h v vs)
  then show ?case
    by (auto split: option.splits)
qed auto

lemma alloc_read:
  "alloc_val x h = (r, h1) \<Longrightarrow> \<exists>n. read_val n h1 r = Some x"
  "alloc_props kvs h = (ps, h1) \<Longrightarrow>
     map fst ps = map fst kvs \<and> (\<exists>n. read_list n h1 (map snd ps) = Some (map snd kvs))"
  "alloc_elems xs h = (rs, h1) \<Longrightarrow> \<exists>n. read_list n h1 rs = Some xs"
proof (induction x h and kvs h and xs h arbitrary: r h1 and ps h1 and rs h1
       rule: alloc_val_alloc_props_alloc_elems.induct)
  case (6 xs h)
  obtain rs h0 where a: "alloc_elems xs h = (rs, h0)" by (cases "alloc_elems xs h")
  from 6(1) [OF a] obtain n where n: "read_list n h0 rs = Some xs" by auto
  from 6(2) a have e: "r = HRef (length h0)" "h1 = h0 @ [HArray rs]" by auto
  have "read_val (Suc n) h1 r = Some (JArr xs)"
    using read_append(2) [OF n, of "[HArray rs]"] by (simp add: e node_at_def)
  then show ?case ..
next
  case (7 kvs h)
  obtain ps h0 where a: "alloc_props kvs h = (ps, h0)" by (cases "alloc_props kvs h")
  from 7(1) [OF a] obtain n where k: "map fst ps = map fst kvs"
    and n: "read_list n h0 (map snd ps) = Some (map snd kvs)" by auto
  from 7(2) a have e: "r = HRef (length h0)" "h1 = h0 @ [HObject ps]" by auto
  have "read_val (Suc n) h1 r = Some (JObj kvs)"
    using read_append(2) [OF n, of "[HObject ps]"] by (simp add: e node_at_def k zip_map_fst_snd)
  then show ?case ..
next
  case (9 k v kvs h)
  obtain r0 h0 where a: "alloc_val v h = (r0, h0)" by (cases "alloc_val v h")
  obtain ps0 h2 where b: "alloc_props kvs h0 = (ps0, h2)" by (cases "alloc_props kvs h0")
  from 9(1) [OF a] obtain n0 where n0: "read_val n0 h0 r0 = Some v" by auto
  from 9(2) [OF a [symmetric] b] obtain n1 where k: "map fst ps0 = map fst kvs"
    and n1: "read_list n1 h2 (map snd ps0) = Some (map snd kvs)" by auto
  from alloc_fresh(2) [OF b] obtain ext where x: "h2 = h0 @ ext" by (auto simp: allocated_def)
  from 9(3) a b have e: "ps = (k, r0) # ps0" "h1 = h2" by auto
  have "read_val (max n0 n1) h2 r0 = Some v"
    using read_val_mono [OF read_append(1) [OF n0, of ext], of "max n0 n1"] by (simp add: x)
  moreover have "read_list (max n0 n1) h2 (map snd ps0) = Some (map snd kvs)"
    using read_list_mono [OF n1, of "max n0 n1"] by simp
  ultimately have "read_list (max n0 n1) h1 (map snd ps) = Some (map snd ((k, v) # kvs))"
    by (simp add: e)
  with k e show ?case by auto
next
  case (11 v vs h)
  obtain r0 h0 where a: "alloc_val v h = (r0, h0)" by (cases "alloc_val v h")
  obtain rs0 h2 where b: "alloc_elems vs h0 = (rs0, h2)" by (cases "alloc_elems vs h0")
  from 11(1) [OF a] obtain n0 where n0: "read_val n0 h0 r0 = Some v" by auto
  from 11(2) [OF a [symmetric] b] obtain n1 where n1: "read_list n1 h2 rs0 = Some vs" by auto
  from alloc_fresh(3) [OF b] obtain ext where x: "h2 = h0 @ ext" by (auto simp: allocated_def)
  from 11(3) a b have e: "rs = r0 # rs0" "h1 = h2" by auto
  have "read_val (max n0 n1) h2 r0 = Some v"
    using read_val_mono [OF read_append(1) [OF n0, of ext], of "max n0 n1"] by (simp add: x)
  moreover have "read_list (max n0 n1) h2 rs0 = Some vs"
    using read_list_mono [OF n1, of "max n0 n1"] by simp
  ultimately have "read_list (max n0 n1) h1 rs = Some (v # vs)"
    by (simp add: e)
  then show ?case ..
qed auto

lemma read_list_frame:
  assumes "\<And>v. refs_in lo hi v \<Longrightarrow> read_val n h' v = read_val n h v"
  shows "list_all (refs_in lo hi) vs \<Longrightarrow> read_list n h' vs = read_list n h vs"
  by (induction vs) (auto simp: assms split: option.splits)

lemma read_frame:
  assumes c: "closed_from lo h" and t: "t < lo"
  shows "refs_in lo (length h) v \<Longrightarrow> read_val n (h[t := m]) v = read_val n h v"
proof (induction n arbitrary: v)
  case 0
  then show ?case by (cases v) auto
next
  case (Suc n)
  show ?case
  proof (cases v)
    case (HRef a)
    with Suc.prems have a: "lo \<le> a" "a < length h" by auto
    with t have na: "node_at (h[t := m]) a = node_at h a" by (simp add: node_at_def)
    from c a have cl: "list_all (refs_in lo (length h)) (node_vals (h ! a))"
      by (simp add: closed_from_iff)
    have l: "read_list n (h[t := m]) (node_vals (h ! a)) = read_list n h (node_vals (h ! a))"
    proof (rule read_list_frame)
      fix w assume "refs_in lo (length h) w"
      then show "read_val n (h[t := m]) w = read_val n h w" by (rule Suc.IH)
    next
      show "list_all (refs_in lo (length h)) (node_vals (h ! a))" by (rule cl)
    qed
    show ?thesis
      using l a by (cases "h ! a") (simp_all add: HRef na, simp_all add: node_at_def)
  qed auto
qed

text \<open>
  The copy case in the store. When the loop body runs for a key whose source value is an
  object and whose target value is none, in a store whose addresses all point to nodes and
  where the source value does not reach the target, the target holds under that key a
  value that reads as the copy of the source value, every node that this value reaches is
  new, and every node that the source value reaches is old: the two share no node.
\<close>

lemma merge_key_h_copy:
  assumes wf: "closed_from 0 h"
    and tgt: "node_at h target = Some (HObject tprops)"
    and src: "obj_get (h_entries h source) key = Some sourceValue"
    and so: "isObject_h h sourceValue"
    and tv: "\<not> isObject_h h (case obj_get tprops key of None \<Rightarrow> HUndefined | Some v \<Rightarrow> v)"
    and sep: "\<not> reach h sourceValue target"
    and res: "merge_key_h recurse target source key h = Some h'"
  shows "\<exists>c x n. obj_get (h_entries h' (HRef target)) key = Some c
               \<and> read_val (length h) h sourceValue = Some x
               \<and> read_val n h' c = Some (json_copy x)
               \<and> (\<forall>a. reach h' c a \<longrightarrow> length h \<le> a)
               \<and> (\<forall>a. reach h' sourceValue a \<longrightarrow> a < length h)"
proof -
  have te: "h_entries h (HRef target) = tprops" using tgt by (simp add: h_entries_def)
  from tgt have tl: "target < length h" by (auto simp: node_at_def split: if_splits)
  from res src so tv te obtain c h1 where
    cp: "json_copy_h h sourceValue = Some (c, h1)" and sp: "set_prop h1 target key c = Some h'"
    by (auto simp: merge_key_h_def Let_def split: option.splits if_splits)
  from cp obtain x where rx: "read_val (length h) h sourceValue = Some x"
    and al: "alloc_val (json_copy x) h = (c, h1)"
    by (auto simp: json_copy_h_def split: option.splits)
  from alloc_fresh(1) [OF al] have a1: "allocated h h1" and rc: "refs_in (length h) (length h1) c"
    by auto
  from a1 obtain ext where ext: "h1 = h @ ext" by (auto simp: allocated_def)
  have n1: "node_at h1 target = Some (HObject tprops)"
    unfolding ext using tgt by (rule node_at_append)
  with sp have h': "h' = h1[target := HObject (obj_set key c tprops)]"
    by (simp add: set_prop_def)
  have len: "length h' = length h1" by (simp add: h')
  have "h_entries h' (HRef target) = obj_set key c tprops"
    using tl by (simp add: h' h_entries_def node_at_def ext)
  then have 1: "obj_get (h_entries h' (HRef target)) key = Some c"
    by (simp add: obj_get_obj_set)
  have c1: "closed_from (length h) h1" using a1 by (rule allocated_closed_from)
  from alloc_read(1) [OF al] obtain n where "read_val n h1 c = Some (json_copy x)" by auto
  then have 2: "read_val n h' c = Some (json_copy x)"
    using read_frame [OF c1 tl rc] by (simp add: h')
  have c': "closed_from (length h) h'"
    unfolding h' using c1 tl by (rule closed_from_update)
  have 3: "length h \<le> a" if "reach h' c a" for a
    using that rc c' by (auto intro: reach_fresh simp: len)
  from so obtain sa where sv: "sourceValue = HRef sa" and "node_at h sa \<noteq> None"
    by (cases sourceValue) (auto simp: isObject_h_def split: option.splits)
  then have root: "refs_in 0 (length h) sourceValue"
    by (auto simp: node_at_def split: if_splits)
  have 4: "a < length h" if "reach h' sourceValue a" for a
  proof -
    from that have "reach h sourceValue a"
      using wf _ root sep by (rule reach_old) (simp add: h' ext)
    then show ?thesis by (rule reach_lt)
  qed
  from 1 rx 2 3 4 show ?thesis by blast
qed

lemma reach_leaf: "reach h v a \<Longrightarrow> v = HRef 0 \<Longrightarrow> list_all (\<lambda>w. refs_in 1 0 w) (node_vals (h ! 0)) \<Longrightarrow> a = 0"
proof (induction rule: reach.induct)
  case (reach_root a)
  then show ?case by simp
next
  case (reach_step v a b)
  then have "a = 0" by simp
  with reach_step.hyps(2) reach_step.prems(2) have "refs_in 1 0 (HRef b)"
    by (auto simp: list_all_iff)
  then show ?case by simp
qed

text \<open>
  One run of the copy case: the target at address 2 takes under \<open>a\<close> a new node, which the
  source value at address 0 does not reach and which does not reach it.
\<close>

lemma merge_key_h_copy_example:
  "merge_key_h (deepMerge_h 5) 2 (HRef 1) ''a''
        [HObject [(''y'', HNum 2)], HObject [(''a'', HRef 0)], HObject []]
       = Some [HObject [(''y'', HNum 2)], HObject [(''a'', HRef 0)], HObject [(''a'', HRef 3)],
               HObject [(''y'', HNum 2)]]
   \<and> \<not> reach [HObject [(''y'', HNum 2)], HObject [(''a'', HRef 0)], HObject [(''a'', HRef 3)],
               HObject [(''y'', HNum 2)]] (HRef 3) 0
   \<and> \<not> reach [HObject [(''y'', HNum 2)], HObject [(''a'', HRef 0)], HObject [(''a'', HRef 3)],
               HObject [(''y'', HNum 2)]] (HRef 0) 3"
proof -
  let ?h = "[HObject [(''y'', HNum 2)], HObject [(''a'', HRef 0)], HObject []]"
  let ?h' = "[HObject [(''y'', HNum 2)], HObject [(''a'', HRef 0)], HObject [(''a'', HRef 3)],
               HObject [(''y'', HNum 2)]]"
  have h3: "closed_from 0 ?h" by code_simp
  have h4: "node_at ?h 2 = Some (HObject [])" by code_simp
  have h5: "obj_get (h_entries ?h (HRef 1)) ''a'' = Some (HRef 0)" by code_simp
  have h6: "isObject_h ?h (HRef 0)" by code_simp
  have h7: "\<not> isObject_h ?h (case obj_get [] ''a'' of None \<Rightarrow> HUndefined | Some v \<Rightarrow> v)" by code_simp
  have h8: "\<not> reach ?h (HRef 0) 2" by (auto dest: reach_leaf)
  have h9: "merge_key_h (deepMerge_h 5) 2 (HRef 1) ''a'' ?h = Some ?h'" by code_simp
  from merge_key_h_copy [OF h3 h4 h5 h6 h7 h8 h9]
  obtain c where c: "obj_get (h_entries ?h' (HRef 2)) ''a'' = Some c"
    and fresh: "\<forall>a. reach ?h' c a \<longrightarrow> length ?h \<le> a"
    and old: "\<forall>a. reach ?h' (HRef 0) a \<longrightarrow> a < length ?h"
    by blast
  have "obj_get (h_entries ?h' (HRef 2)) ''a'' = Some (HRef 3)" by code_simp
  with c have "c = HRef 3" by simp
  with fresh have f: "\<not> reach ?h' (HRef 3) 0" by auto
  from old have o: "\<not> reach ?h' (HRef 0) 3" by auto
  from h9 f o show ?thesis by blast
qed

text \<open>On the three examples the merge run in the store reads back as the merge on values.\<close>

lemma merge_in_store_examples:
  "merge_in_store [(''a'', JNum 1)] (JObj [(''a'', JNum 2)]) = Some (JObj [(''a'', JNum 2)])
   \<and> merge_in_store [(''a'', JObj [(''x'', JNum 1)])] (JObj [(''a'', JObj [(''y'', JNum 2)])])
       = Some (JObj [(''a'', JObj [(''x'', JNum 1), (''y'', JNum 2)])])
   \<and> merge_in_store [(''a'', JArr [JNum 1, JNum 2])] (JObj [(''a'', JArr [JNum 3])])
       = Some (JObj [(''a'', JArr [JNum 3])])"
  by code_simp

section \<open>A source key named hasOwnProperty\<close>

text \<open>
  Claim C8 against the code. The loop guards each key with
  \<^verbatim>\<open>source.hasOwnProperty(key)\<close>, to visit the properties that the source has itself. On a
  source that has a property named \<^verbatim>\<open>hasOwnProperty\<close> the guard calls that property, a
  value of the data, and throws. Where the target and the source both hold the mapping
  \<^verbatim>\<open>{"hasOwnProperty": "x"}\<close> under a key, the claim merges the two recursively; the code
  ends with a TypeError. Merged into a target without that key, the same source is copied,
  so the error comes with the second year that holds it. The last line is the run of the
  builder on a registry tree whose two year folders hold the same file
  \<^verbatim>\<open>{"k": {"hasOwnProperty": "x"}}\<close>.
\<close>

theorem deepMerge_own_key_throws:
  "deepMerge [(''k'', JObj [(''hasOwnProperty'', JStr ''x'')])]
             [JObj [(''k'', JObj [(''hasOwnProperty'', JStr ''x'')])]] = Inl TypeError
   \<and> deepMerge [] [JObj [(''k'', JObj [(''hasOwnProperty'', JStr ''x'')])]]
       = Inr [(''k'', JObj [(''hasOwnProperty'', JStr ''x'')])]
   \<and> deepMerge [] [JObj [(''hasOwnProperty'', JStr ''x'')]] = Inl TypeError
   \<and> build [(''webkit'', JObj [(''safari'', JObj
               [(''2023'', JObj [(''classes.json'', JObj [(''k'', JObj [(''hasOwnProperty'', JStr ''x'')])])]),
                (''2024'', JObj [(''classes.json'', JObj [(''k'', JObj [(''hasOwnProperty'', JStr ''x'')])])])])])]
            [] = Inl TypeError"
  by code_simp

section \<open>Deep merge of a source that is no object\<close>

text \<open>
  Claim C9, as the code has it. For every target \<open>t\<close>, merging a source that is
  \<^verbatim>\<open>undefined\<close>, \<^verbatim>\<open>null\<close>, a boolean, a number or the empty string returns \<open>t\<close>
  unchanged, with no error.
\<close>

theorem deepMerge_non_object_source:
  "deepMerge t [JUndefined] = Inr t \<and> deepMerge t [JNull] = Inr t \<and> deepMerge t [JBool b] = Inr t
   \<and> deepMerge t [JNum n] = Inr t \<and> deepMerge t [JStr []] = Inr t"
  by (simp add: indexed_def)

text \<open>
  Claim C9 as stated fails on a string that is not empty: \<^verbatim>\<open>for ... in\<close> visits its
  indices, and the target takes one character under each.
\<close>

theorem deepMerge_string_counterexample:
  "deepMerge [] [JStr ''ab''] = Inr [(''0'', JStr ''a''), (''1'', JStr ''b'')]"
  by code_simp

section \<open>The two tree loaders\<close>

lemma createJsonObjectTree_loop_hidden:
  "startsWith name ''.'' \<Longrightarrow>
   obj_get (createJsonObjectTree_loop parse items tree) name = obj_get tree name"
proof (induction items arbitrary: tree)
  case Nil
  then show ?case by simp
next
  case (Cons entry items)
  obtain item node where e: "entry = (item, node)" by (cases entry)
  show ?case
    unfolding e using Cons.prems
    by (auto simp: Cons.IH Let_def obj_get_obj_set split: fsnode.splits option.splits)
qed

lemma createJsonObjectTree_loop_other:
  "name \<notin> fst ` set items \<Longrightarrow>
   obj_get (createJsonObjectTree_loop parse items tree) name = obj_get tree name"
proof (induction items arbitrary: tree)
  case Nil
  then show ?case by simp
next
  case (Cons entry items)
  obtain item node where e: "entry = (item, node)" by (cases entry)
  show ?case
    unfolding e using Cons.prems
    by (auto simp: e Cons.IH Let_def obj_get_obj_set split: fsnode.splits option.splits)
qed

lemma createJsonObjectTree_loop_dir:
  "distinct (map fst items) \<Longrightarrow> (name, Dir sub) \<in> set items \<Longrightarrow> \<not> startsWith name ''.'' \<Longrightarrow>
   obj_get (createJsonObjectTree_loop parse items tree) name =
     (if createJsonObjectTree parse sub = [] then obj_get tree name
      else Some (JObj (createJsonObjectTree parse sub)))"
proof (induction items arbitrary: tree)
  case Nil
  then show ?case by simp
next
  case (Cons entry items)
  obtain item node where e: "entry = (item, node)" by (cases entry)
  show ?case
  proof (cases "item = name")
    case True
    with Cons.prems e have "node = Dir sub" and "name \<notin> fst ` set items"
      by (auto dest: fst_in_keys)
    with True Cons.prems(3) show ?thesis
      by (simp add: e createJsonObjectTree_loop_other createJsonObjectTree_def Let_def obj_get_obj_set)
  next
    case False
    with Cons.prems e have d: "distinct (map fst items)" and m: "(name, Dir sub) \<in> set items"
      by auto
    show ?thesis
      unfolding e using False Cons.prems(3)
      by (auto simp: Cons.IH [OF d m] Let_def obj_get_obj_set split: fsnode.splits option.splits)
  qed
qed

lemma createFileTree_loop_other:
  "name \<notin> fst ` set items \<Longrightarrow>
   obj_get (createFileTree_loop parse items tree) name = obj_get tree name"
proof (induction items arbitrary: tree)
  case Nil
  then show ?case by simp
next
  case (Cons entry items)
  obtain item node where e: "entry = (item, node)" by (cases entry)
  show ?case
    unfolding e using Cons.prems
    by (auto simp: e Cons.IH Let_def obj_get_obj_set split: fsnode.splits)
qed

lemma createFileTree_loop_entry:
  "distinct (map fst items) \<Longrightarrow> (name, node) \<in> set items \<Longrightarrow>
   obj_get (createFileTree_loop parse items tree) name =
     (case node of
        File contentString \<Rightarrow> Some (JStr contentString)
      | Dir sub \<Rightarrow>
          (if createJsonObjectTree parse sub = [] then obj_get tree name
           else Some (JObj (createJsonObjectTree parse sub)))
      | Other \<Rightarrow> obj_get tree name)"
proof (induction items arbitrary: tree)
  case Nil
  then show ?case by simp
next
  case (Cons entry items)
  obtain item node' where e: "entry = (item, node')" by (cases entry)
  show ?case
  proof (cases "item = name")
    case True
    with Cons.prems e have "node' = node" and "name \<notin> fst ` set items"
      by (auto dest: fst_in_keys)
    with True show ?thesis
      by (simp add: e createFileTree_loop_other Let_def obj_get_obj_set split: fsnode.splits)
  next
    case False
    with Cons.prems e have d: "distinct (map fst items)" and m: "(name, node) \<in> set items"
      by auto
    show ?thesis
      unfolding e using False
      by (auto simp: Cons.IH [OF d m] Let_def obj_get_obj_set split: fsnode.splits)
  qed
qed

text \<open>
  Claim C10. The site-asset loader filters nothing at its top level: every file of the
  directory, also one whose name starts with a dot, is in the tree with its text, and
  every directory, also a hidden one, is there as the tree the registry loader makes of
  it, unless that tree is empty. The registry loader has no key that starts with a dot at
  the level it reads, and each directory it keeps holds the tree of the same loader, so
  the same holds at every level.
\<close>

theorem createFileTree_keeps_hidden:
  assumes "distinct (map fst items)"
  shows "(\<forall>name contentString. (name, File contentString) \<in> set items \<longrightarrow>
            obj_get (createFileTree parse items) name = Some (JStr contentString))
       \<and> (\<forall>name sub. (name, Dir sub) \<in> set items \<longrightarrow>
            obj_get (createFileTree parse items) name =
              (if createJsonObjectTree parse sub = [] then None
               else Some (JObj (createJsonObjectTree parse sub))))
       \<and> (\<forall>name dir. startsWith name ''.'' \<longrightarrow> obj_get (createJsonObjectTree parse dir) name = None)
       \<and> (\<forall>name sub. (name, Dir sub) \<in> set items \<and> \<not> startsWith name ''.'' \<longrightarrow>
            obj_get (createJsonObjectTree parse items) name =
              (if createJsonObjectTree parse sub = [] then None
               else Some (JObj (createJsonObjectTree parse sub))))"
  using createFileTree_loop_entry [OF assms, of _ _ parse "[]"]
        createJsonObjectTree_loop_dir [OF assms, of _ _ parse "[]"]
  by (auto simp: createFileTree_def createJsonObjectTree_def createJsonObjectTree_loop_hidden
           split: fsnode.splits)

theorem createFileTree_keeps_hidden_witness:
  \<open>distinct (map fst [(''.hidden.json'', File ''{"foo":"-webkit-foo"}''),
                       (''.data'', Dir [(''classes.json'', File ''{"bar":"-webkit-bar"}''),
                                       (''.skip.json'', File ''{"foo":"-webkit-foo"}'')])])
   \<and> obj_get (createFileTree example_parse
        [(''.hidden.json'', File ''{"foo":"-webkit-foo"}''),
         (''.data'', Dir [(''classes.json'', File ''{"bar":"-webkit-bar"}''),
                         (''.skip.json'', File ''{"foo":"-webkit-foo"}'')])]) ''.hidden.json''
       = Some (JStr ''{"foo":"-webkit-foo"}'')
   \<and> obj_get (createFileTree example_parse
        [(''.hidden.json'', File ''{"foo":"-webkit-foo"}''),
         (''.data'', Dir [(''classes.json'', File ''{"bar":"-webkit-bar"}''),
                         (''.skip.json'', File ''{"foo":"-webkit-foo"}'')])]) ''.data''
       = Some (JObj [(''classes.json'', JObj [(''bar'', JStr ''-webkit-bar'')])])
   \<and> obj_get (createJsonObjectTree example_parse
        [(''.hidden.json'', File ''{"foo":"-webkit-foo"}''),
         (''.data'', Dir [(''classes.json'', File ''{"bar":"-webkit-bar"}''),
                         (''.skip.json'', File ''{"foo":"-webkit-foo"}'')])]) ''.hidden.json''
       = None\<close>
proof -
  let ?sub = \<open>[(''classes.json'', File ''{"bar":"-webkit-bar"}''), (''.skip.json'', File ''{"foo":"-webkit-foo"}'')]\<close>
  let ?items = \<open>[(''.hidden.json'', File ''{"foo":"-webkit-foo"}''), (''.data'', Dir ?sub)]\<close>
  have d: "distinct (map fst ?items)" by simp
  have f: \<open>(''.hidden.json'', File ''{"foo":"-webkit-foo"}'') \<in> set ?items\<close> by simp
  have s: "(''.data'', Dir ?sub) \<in> set ?items" by simp
  have t: "createJsonObjectTree example_parse ?sub = [(''classes.json'', JObj [(''bar'', JStr ''-webkit-bar'')])]"
    by code_simp
  have dot: "startsWith ''.hidden.json'' ''.''" by code_simp
  note facts = createFileTree_keeps_hidden [OF d, of example_parse]
  from facts f have 1: \<open>obj_get (createFileTree example_parse ?items) ''.hidden.json'' = Some (JStr ''{"foo":"-webkit-foo"}'')\<close>
    by blast
  from facts s have "obj_get (createFileTree example_parse ?items) ''.data'' =
     (if createJsonObjectTree example_parse ?sub = [] then None
      else Some (JObj (createJsonObjectTree example_parse ?sub)))"
    by blast
  then have 2: "obj_get (createFileTree example_parse ?items) ''.data''
       = Some (JObj [(''classes.json'', JObj [(''bar'', JStr ''-webkit-bar'')])])"
    by (simp add: t)
  from facts dot have 3: "obj_get (createJsonObjectTree example_parse ?items) ''.hidden.json'' = None"
    by blast
  from d 1 2 3 show ?thesis by blast
qed

section \<open>One step of the snapshot builder\<close>

lemma fromfilename_neq_lastfilename: "fromfilename platform year \<noteq> lastfilename platform index"
  by (simp add: fromfilename_def lastfilename_def)

text \<open>
  Claim C3. Whenever a step of the snapshot builder returns, the file map holds the same
  string, the serialised accumulator of that step, under the from-anchored name and under
  the last-anchored name of the step, and the two names differ.
\<close>

theorem snapshot_step_same_content:
  assumes "snapshot_step platform years year index st = Inr st'"
  shows "obj_get (finalfiles st') (fromfilename platform year) = Some (JStr (stringify (JObj (o1 st'))))
       \<and> obj_get (finalfiles st') (lastfilename platform index) = Some (JStr (stringify (JObj (o1 st'))))
       \<and> fromfilename platform year \<noteq> lastfilename platform index"
  using assms
  by (auto simp: snapshot_step_def Let_def obj_get_obj_set fromfilename_neq_lastfilename
           split: option.splits sum.splits)

theorem snapshot_step_same_content_witness:
  \<open>snapshot_step ''webkit'' [(''2024'', JObj [(''classes.json'', JObj [(''bar'', JObj [(''safari'', JStr ''-webkit-bar'')])])])]
      ''2024'' 0 \<lparr> o1 = [], index_from = [], index_last = [], finalfiles = [] \<rparr>
     = Inr \<lparr> o1 = [(''classes'', JObj [(''bar'', JObj [(''safari'', JStr ''-webkit-bar'')])])],
            index_from = [(''2024'', JStr ''platform/webkit--from-2024.json'')],
            index_last = [(''1 year'', JStr ''platform/webkit--last-0001.json'')],
            finalfiles = [(''platform/webkit--from-2024.json'', JStr ''{"classes":{"bar":{"safari":"-webkit-bar"}}}''),
                          (''platform/webkit--last-0001.json'', JStr ''{"classes":{"bar":{"safari":"-webkit-bar"}}}'')] \<rparr>
   \<and> obj_get [(''platform/webkit--from-2024.json'', JStr ''{"classes":{"bar":{"safari":"-webkit-bar"}}}''),
              (''platform/webkit--last-0001.json'', JStr ''{"classes":{"bar":{"safari":"-webkit-bar"}}}'')]
        (fromfilename ''webkit'' ''2024'')
     = obj_get [(''platform/webkit--from-2024.json'', JStr ''{"classes":{"bar":{"safari":"-webkit-bar"}}}''),
              (''platform/webkit--last-0001.json'', JStr ''{"classes":{"bar":{"safari":"-webkit-bar"}}}'')]
        (lastfilename ''webkit'' 0)\<close>
proof -
  let ?years = "[(''2024'', JObj [(''classes.json'', JObj [(''bar'', JObj [(''safari'', JStr ''-webkit-bar'')])])])]"
  let ?st = "\<lparr> o1 = [], index_from = [], index_last = [], finalfiles = [] \<rparr>"
  let ?st' = \<open>\<lparr> o1 = [(''classes'', JObj [(''bar'', JObj [(''safari'', JStr ''-webkit-bar'')])])],
            index_from = [(''2024'', JStr ''platform/webkit--from-2024.json'')],
            index_last = [(''1 year'', JStr ''platform/webkit--last-0001.json'')],
            finalfiles = [(''platform/webkit--from-2024.json'', JStr ''{"classes":{"bar":{"safari":"-webkit-bar"}}}''),
                          (''platform/webkit--last-0001.json'', JStr ''{"classes":{"bar":{"safari":"-webkit-bar"}}}'')] \<rparr>\<close>
  have h: "snapshot_step ''webkit'' ?years ''2024'' 0 ?st = Inr ?st'" by code_simp
  from snapshot_step_same_content [OF h] h show ?thesis by simp
qed

section \<open>A group outside the rename lookup\<close>

text \<open>
  Claim C4 against the code. The reducer returns its accumulator only for a group of the
  lookup. When the unknown group comes last, the reduction yields \<^verbatim>\<open>undefined\<close> and the
  known groups of that year are lost with it: the snapshot of the year is empty. When a
  known group follows the unknown one, the assignment to \<^verbatim>\<open>undefined\<close> throws and the run
  ends with an error.
\<close>

theorem unknown_group_loses_year:
  \<open>rename_groups [(''classes.json'', v), (''notes.json'', w)] (JObj []) = Inr JUndefined
   \<and> rename_groups [(''about.json'', w), (''classes.json'', v)] (JObj []) = Inl TypeError
   \<and> main example_parse (Some registry_unknown_last) (Some (Dir [])) =
       Inr [(''platform/webkit--from-2024.json'', ''{}''),
            (''platform/webkit--last-0001.json'', ''{}''),
            (''index.json'',
             ''{"webkit":{"from":{"2024":"platform/webkit--from-2024.json"},"last":{"1 year":"platform/webkit--last-0001.json"}}}'')]
   \<and> main example_parse (Some registry_unknown_first) (Some (Dir [])) = Inl TypeError\<close>
proof -
  have 1: "rename_groups [(''classes.json'', v), (''notes.json'', w)] (JObj []) = Inr JUndefined"
    by (simp add: filemaps_def)
  have 2: "rename_groups [(''about.json'', w), (''classes.json'', v)] (JObj []) = Inl TypeError"
    by (simp add: filemaps_def)
  have 3: \<open>main example_parse (Some registry_unknown_last) (Some (Dir [])) =
       Inr [(''platform/webkit--from-2024.json'', ''{}''),
            (''platform/webkit--last-0001.json'', ''{}''),
            (''index.json'',
             ''{"webkit":{"from":{"2024":"platform/webkit--from-2024.json"},"last":{"1 year":"platform/webkit--last-0001.json"}}}'')]\<close>
    by code_simp
  have 4: "main example_parse (Some registry_unknown_first) (Some (Dir [])) = Inl TypeError"
    by code_simp
  from 1 2 3 4 show ?thesis by blast
qed

section \<open>The manifest\<close>

lemma keys_inverseNestedObject_years:
  assumes "distinct_val v0"
  shows "fst ` set (inverseNestedObject v0) = set (registry_years v0)"
proof -
  have "(\<exists>a. cell v0 a b \<noteq> None) \<longleftrightarrow> b \<in> set (registry_years v0)" for b
  proof
    assume "\<exists>a. cell v0 a b \<noteq> None"
    then obtain a row where r: "obj_get (entries v0) a = Some row" "is_typeof_object row"
        "obj_get (entries row) b \<noteq> None"
      by (auto simp: cell_def split: option.splits if_splits)
    from r(1) have "(a, row) \<in> set (entries v0)" by (rule map_of_SomeD)
    moreover from r(3) have "b \<in> fst ` set (entries row)" by (simp add: map_of_eq_None_iff)
    ultimately show "b \<in> set (registry_years v0)"
      using r(2) by (force simp: registry_years_def)
  next
    assume "b \<in> set (registry_years v0)"
    then obtain a row x where r: "(a, row) \<in> set (entries v0)" "is_typeof_object row"
        "(b, x) \<in> set (entries row)"
      by (auto simp: registry_years_def split: if_splits)
    from r(3) have k: "b \<in> fst ` set (entries row)" by (rule fst_in_keys)
    from distinct_val_entries [OF assms] r(1) have "obj_get (entries v0) a = Some row" by simp
    moreover from k have "obj_get (entries row) b \<noteq> None" by (simp add: map_of_eq_None_iff)
    ultimately have "cell v0 a b \<noteq> None" using r(2) by (simp add: cell_def)
    then show "\<exists>a. cell v0 a b \<noteq> None" ..
  qed
  then show ?thesis using keys_inverseNestedObject [OF assms] by blast
qed

lemma inj_last_label: "inj last_label"
  by (rule injI) (simp add: last_label_def inj_eq [OF inj_string_of_nat])

lemma snapshot_step_index:
  assumes "snapshot_step platform years year index st = Inr st'"
  shows "index_from st' = obj_set year (JStr (fromfilename platform year)) (index_from st)"
    and "index_last st' = obj_set (last_label index) (JStr (lastfilename platform index)) (index_last st)"
  using assms
  by (auto simp: snapshot_step_def Let_def last_label_def split: option.splits sum.splits)

lemma snapshot_loop_index:
  assumes "snapshot_loop platform years ys index st = Inr st'"
    and "fst ` set (index_last st) = last_label ` {0..<index}"
    and "distinct (map fst (index_last st))"
  shows "fst ` set (index_from st') = fst ` set (index_from st) \<union> set ys
       \<and> fst ` set (index_last st') = last_label ` {0..<index + length ys}
       \<and> distinct (map fst (index_last st'))"
  using assms
proof (induction ys arbitrary: index st)
  case Nil
  then show ?case by simp
next
  case (Cons y ys)
  from Cons.prems(1) obtain st1 where
    s1: "snapshot_step platform years y index st = Inr st1" and
    l1: "snapshot_loop platform years ys (Suc index) st1 = Inr st'"
    by (auto split: sum.splits)
  have k1: "fst ` set (index_last st1) = last_label ` {0..<Suc index}"
    using Cons.prems(2) by (auto simp: snapshot_step_index [OF s1] keys_obj_set atLeast0_lessThan_Suc)
  have d1: "distinct (map fst (index_last st1))"
    using Cons.prems(3) by (simp add: snapshot_step_index [OF s1] distinct_obj_set)
  from Cons.IH [OF l1 k1 d1] show ?case
    by (auto simp: snapshot_step_index [OF s1] keys_obj_set)
qed

lemma platform_loop_other:
  "platform_loop ps s = Inr s' \<Longrightarrow> p \<notin> fst ` set ps \<Longrightarrow> obj_get (fst s') p = obj_get (fst s) p"
proof (induction ps arbitrary: s)
  case Nil
  then show ?case by simp
next
  case (Cons pkv ps)
  from Cons.prems(1) obtain s1 where
    s1: "platform_step pkv s = Inr s1" and l1: "platform_loop ps s1 = Inr s'"
    by (auto split: sum.splits)
  from Cons.prems(2) have "p \<noteq> fst pkv" and "p \<notin> fst ` set ps" by auto
  with Cons.IH [OF l1] s1 show ?case
    by (auto simp: platform_step_def Let_def obj_get_obj_set split: sum.splits)
qed

lemma platform_loop_entry:
  assumes "platform_loop ps s = Inr s'" and "distinct (map fst ps)" and "(p, yrs) \<in> set ps"
  shows "\<exists>st files. snapshot_loop p (entries yrs) (rev (map fst (entries yrs))) 0
                     \<lparr> o1 = [], index_from = [], index_last = [], finalfiles = files \<rparr> = Inr st
                   \<and> obj_get (fst s') p
                       = Some (JObj [(''from'', JObj (index_from st)), (''last'', JObj (index_last st))])"
  using assms
proof (induction ps arbitrary: s)
  case Nil
  then show ?case by simp
next
  case (Cons pkv ps)
  from Cons.prems(1) obtain s1 where
    s1: "platform_step pkv s = Inr s1" and l1: "platform_loop ps s1 = Inr s'"
    by (auto split: sum.splits)
  show ?case
  proof (cases "pkv = (p, yrs)")
    case True
    with Cons.prems(2) have np: "p \<notin> fst ` set ps" by auto
    from s1 True obtain st where
      st: "snapshot_loop p (entries yrs) (rev (map fst (entries yrs))) 0
             \<lparr> o1 = [], index_from = [], index_last = [], finalfiles = snd s \<rparr> = Inr st" and
      e: "obj_get (fst s1) p = Some (JObj [(''from'', JObj (index_from st)), (''last'', JObj (index_last st))])"
      by (auto simp: platform_step_def Let_def obj_get_obj_set split: sum.splits)
    from platform_loop_other [OF l1 np] st e show ?thesis by auto
  next
    case False
    with Cons.prems have "distinct (map fst ps)" and "(p, yrs) \<in> set ps" by auto
    with Cons.IH [OF l1] show ?thesis by blast
  qed
qed

text \<open>
  Claim C2, as the code has it. The years of the manifest are the keys two levels below the
  platform, the year folders of its contributors. For every registry tree within the scope
  of the embedding and every run that completes, each platform of the tree has its entry
  in the manifest, the keys of its \<open>from\<close> mapping are exactly those years, and its
  \<open>last\<close> mapping has as many entries as there are such years.
\<close>

theorem manifest_years:
  assumes "json_val (JObj objectTree)"
    and "build objectTree siteTree = Inr (indexmap, files)"
    and "obj_get objectTree platform = Some v0"
  shows "\<exists>from_map last_map.
           obj_get indexmap platform = Some (JObj [(''from'', JObj from_map), (''last'', JObj last_map)])
         \<and> fst ` set from_map = set (registry_years v0)
         \<and> length last_map = card (set (registry_years v0))"
proof -
  have d: "distinct_val (JObj objectTree)" using assms(1) by (rule json_val_distinct_val)
  then have dT: "distinct (map fst objectTree)" by simp
  from assms(3) have "(platform, v0) \<in> set objectTree" by (rule map_of_SomeD)
  with d have d0: "distinct_val v0" by (auto simp: list_all_iff)
  let ?years = "reduce_assign (\<lambda>k1. switched2) (inverseNestedObject v0)"
  have "obj_get (switched objectTree) platform = Some (JObj ?years)"
    using assms(3) dT by (simp add: switched_def obj_get_reduce_assign switched1_def)
  then have mem: "(platform, JObj ?years) \<in> set (switched objectTree)" by (rule map_of_SomeD)
  have ds: "distinct (map fst (switched objectTree))"
    by (simp add: switched_def distinct_reduce_assign)
  from assms(2) obtain files0 where
    loop: "platform_loop (switched objectTree) ([], siteTree) = Inr (indexmap, files0)"
    by (auto simp: build_def split: sum.splits prod.splits)
  from platform_loop_entry [OF loop ds mem] obtain st fs where
    st: "snapshot_loop platform ?years (rev (map fst ?years)) 0
           \<lparr> o1 = [], index_from = [], index_last = [], finalfiles = fs \<rparr> = Inr st" and
    e: "obj_get indexmap platform = Some (JObj [(''from'', JObj (index_from st)), (''last'', JObj (index_last st))])"
    by auto
  have ky: "fst ` set ?years = set (registry_years v0)"
    by (simp add: keys_reduce_assign keys_inverseNestedObject_years [OF d0])
  have dy: "distinct (map fst ?years)" by (rule distinct_reduce_assign)
  from snapshot_loop_index [OF st] have
    f: "fst ` set (index_from st) = set (rev (map fst ?years))" and
    l: "fst ` set (index_last st) = last_label ` {0..<length ?years}" and
    dl: "distinct (map fst (index_last st))"
    by simp_all
  have "length (index_last st) = card (fst ` set (index_last st))"
    using dl by (metis distinct_card length_map list.set_map)
  also have "\<dots> = length ?years"
    by (simp add: l card_image inj_on_subset [OF inj_last_label])
  also have "\<dots> = card (fst ` set ?years)"
    using dy by (metis distinct_card length_map list.set_map)
  finally have len: "length (index_last st) = card (set (registry_years v0))"
    by (simp add: ky)
  from f ky have "fst ` set (index_from st) = set (registry_years v0)" by simp
  with e len show ?thesis by blast
qed

theorem manifest_years_witness:
  \<open>json_val (JObj [(''webkit'',
       JObj [(''safari'',
              JObj [(''2023'', JObj [(''classes.json'', JObj [(''foo'', JStr ''-webkit-foo'')])]),
                    (''2024'', JObj [(''classes.json'', JObj [(''bar'', JStr ''-webkit-bar'')])])])])])
   \<and> (\<exists>from_map last_map.
         obj_get [(''webkit'',
                   JObj [(''from'', JObj [(''2023'', JStr ''platform/webkit--from-2023.json''),
                                          (''2024'', JStr ''platform/webkit--from-2024.json'')]),
                         (''last'', JObj [(''1 year'', JStr ''platform/webkit--last-0001.json''),
                                          (''2 year'', JStr ''platform/webkit--last-0002.json'')])])]
           ''webkit''
           = Some (JObj [(''from'', JObj from_map), (''last'', JObj last_map)])
       \<and> fst ` set from_map = {''2023'', ''2024''}
       \<and> length last_map = 2)\<close>
proof -
  let ?v0 = "JObj [(''safari'',
              JObj [(''2023'', JObj [(''classes.json'', JObj [(''foo'', JStr ''-webkit-foo'')])]),
                    (''2024'', JObj [(''classes.json'', JObj [(''bar'', JStr ''-webkit-bar'')])])])]"
  let ?T = "[(''webkit'', ?v0)]"
  let ?im = "[(''webkit'',
                   JObj [(''from'', JObj [(''2023'', JStr ''platform/webkit--from-2023.json''),
                                          (''2024'', JStr ''platform/webkit--from-2024.json'')]),
                         (''last'', JObj [(''1 year'', JStr ''platform/webkit--last-0001.json''),
                                          (''2 year'', JStr ''platform/webkit--last-0002.json'')])])]"
  let ?files = \<open>[(''platform/webkit--from-2024.json'', JStr ''{"classes":{"bar":{"safari":"-webkit-bar"}}}''),
          (''platform/webkit--last-0001.json'', JStr ''{"classes":{"bar":{"safari":"-webkit-bar"}}}''),
          (''platform/webkit--from-2023.json'',
           JStr ''{"classes":{"bar":{"safari":"-webkit-bar"},"foo":{"safari":"-webkit-foo"}}}''),
          (''platform/webkit--last-0002.json'',
           JStr ''{"classes":{"bar":{"safari":"-webkit-bar"},"foo":{"safari":"-webkit-foo"}}}''),
          (''index.json'',
           JStr ''{"webkit":{"from":{"2023":"platform/webkit--from-2023.json","2024":"platform/webkit--from-2024.json"},"last":{"1 year":"platform/webkit--last-0001.json","2 year":"platform/webkit--last-0002.json"}}}'')]\<close>
  have h1: "json_val (JObj ?T)" by code_simp
  have h2: "build ?T [] = Inr (?im, ?files)" by code_simp
  have h3: "obj_get ?T ''webkit'' = Some ?v0" by simp
  have y: "set (registry_years ?v0) = {''2023'', ''2024''}" by code_simp
  have c: "card {''2023'', ''2024''} = 2" by simp
  from manifest_years [OF h1 h2 h3] show ?thesis
    unfolding y c using h1 by blast
qed

text \<open>
  Claim C2 as stated fails on the registry of the end-to-end example, whose years lie
  directly under the platform: the manifest of \<^verbatim>\<open>webkit\<close> has neither year under \<open>from\<close>,
  and one entry under \<open>last\<close> for the two years.
\<close>

theorem manifest_years_counterexample:
  \<open>map fst (entries (JObj [(''2023'', JObj [(''classes.json'', JObj [(''foo'', JStr ''-webkit-foo'')])]),
                            (''2024'', JObj [(''classes.json'', JObj [(''bar'', JStr ''-webkit-bar'')])])]))
     = [''2023'', ''2024'']
   \<and> (case build [(''webkit'',
                    JObj [(''2023'', JObj [(''classes.json'', JObj [(''foo'', JStr ''-webkit-foo'')])]),
                          (''2024'', JObj [(''classes.json'', JObj [(''bar'', JStr ''-webkit-bar'')])])])] []
       of Inr (indexmap, files) \<Rightarrow> obj_get indexmap ''webkit'' | Inl e \<Rightarrow> None)
     = Some (JObj [(''from'', JObj [(''classes.json'', JStr ''platform/webkit--from-classes.json.json'')]),
                   (''last'', JObj [(''1 year'', JStr ''platform/webkit--last-0001.json'')])])\<close>
  by code_simp

section \<open>The end-to-end example\<close>

text \<open>
  Claim C1 as stated fails. With the two files directly under \<^verbatim>\<open>webkit/<year>/\<close> the first
  pivot takes the years for contributors and the third finds strings where it expects
  mappings: the run writes one empty snapshot named after \<^verbatim>\<open>classes.json\<close>, and neither
  \<^verbatim>\<open>platform/webkit--from-2024.json\<close> nor \<^verbatim>\<open>platform/webkit--from-2023.json\<close>.
\<close>

theorem end_to_end_by_year_counterexample:
  \<open>main example_parse (Some registry_by_year) (Some (Dir [])) =
     Inr [(''platform/webkit--from-classes.json.json'', ''{}''),
          (''platform/webkit--last-0001.json'', ''{}''),
          (''index.json'',
           ''{"webkit":{"from":{"classes.json":"platform/webkit--from-classes.json.json"},"last":{"1 year":"platform/webkit--last-0001.json"}}}'')]\<close>
  by code_simp

lemma loaded_by_vendor:
  assumes \<open>parse ''{"foo":"-webkit-foo"}'' = Some (JObj [(''foo'', JStr ''-webkit-foo'')])\<close>
      and \<open>parse ''{"bar":"-webkit-bar"}'' = Some (JObj [(''bar'', JStr ''-webkit-bar'')])\<close>
  shows \<open>createJsonObjectTree parse
           [(''webkit'',
             Dir [(''safari'',
                   Dir [(''2023'', Dir [(''classes.json'', File ''{"foo":"-webkit-foo"}'')]),
                        (''2024'', Dir [(''classes.json'', File ''{"bar":"-webkit-bar"}'')])])])]
         = [(''webkit'',
             JObj [(''safari'',
                    JObj [(''2023'', JObj [(''classes.json'', JObj [(''foo'', JStr ''-webkit-foo'')])]),
                          (''2024'', JObj [(''classes.json'', JObj [(''bar'', JStr ''-webkit-bar'')])])])])]\<close>
proof -
  have i: "is_array_index ''2023''" "is_array_index ''2024''" by code_simp+
  have n: "\<not> is_array_index ''classes.json''" "\<not> is_array_index ''safari''" "\<not> is_array_index ''webkit''"
    by code_simp+
  have v: "index_value ''2023'' < index_value ''2024''" by code_simp
  show ?thesis
    using assms i n v
    by (simp add: createJsonObjectTree_def startsWith_def endsWith_def obj_set_def)
qed

text \<open>
  Claim C1, as the code has it: the two files lie one directory deeper, under a
  contributor's directory. For every parser that reads the two documents as the two
  mappings, and an empty site directory, one run writes the 2024 snapshot with the 2024
  data, the 2023 snapshot with both years merged (the newer year first), the two
  last-anchored copies, and the manifest naming them; every leaf sits under the
  contributor's name.
\<close>

theorem end_to_end_by_vendor:
  assumes \<open>parse ''{"foo":"-webkit-foo"}'' = Some (JObj [(''foo'', JStr ''-webkit-foo'')])\<close>
      and \<open>parse ''{"bar":"-webkit-bar"}'' = Some (JObj [(''bar'', JStr ''-webkit-bar'')])\<close>
  shows \<open>main parse (Some registry_by_vendor) (Some (Dir [])) =
     Inr [(''platform/webkit--from-2024.json'', ''{"classes":{"bar":{"safari":"-webkit-bar"}}}''),
          (''platform/webkit--last-0001.json'', ''{"classes":{"bar":{"safari":"-webkit-bar"}}}''),
          (''platform/webkit--from-2023.json'',
           ''{"classes":{"bar":{"safari":"-webkit-bar"},"foo":{"safari":"-webkit-foo"}}}''),
          (''platform/webkit--last-0002.json'',
           ''{"classes":{"bar":{"safari":"-webkit-bar"},"foo":{"safari":"-webkit-foo"}}}''),
          (''index.json'',
           ''{"webkit":{"from":{"2023":"platform/webkit--from-2023.json","2024":"platform/webkit--from-2024.json"},"last":{"1 year":"platform/webkit--last-0001.json","2 year":"platform/webkit--last-0002.json"}}}'')]\<close>
proof -
  let ?T = "[(''webkit'',
             JObj [(''safari'',
                    JObj [(''2023'', JObj [(''classes.json'', JObj [(''foo'', JStr ''-webkit-foo'')])]),
                          (''2024'', JObj [(''classes.json'', JObj [(''bar'', JStr ''-webkit-bar'')])])])])]"
  have site: "createFileTree parse [] = []" by (simp add: createFileTree_def)
  have run: \<open>(case build ?T [] of Inl e \<Rightarrow> Inl e | Inr (indexmap, files) \<Rightarrow> publishPathContent files) =
     Inr [(''platform/webkit--from-2024.json'', ''{"classes":{"bar":{"safari":"-webkit-bar"}}}''),
          (''platform/webkit--last-0001.json'', ''{"classes":{"bar":{"safari":"-webkit-bar"}}}''),
          (''platform/webkit--from-2023.json'',
           ''{"classes":{"bar":{"safari":"-webkit-bar"},"foo":{"safari":"-webkit-foo"}}}''),
          (''platform/webkit--last-0002.json'',
           ''{"classes":{"bar":{"safari":"-webkit-bar"},"foo":{"safari":"-webkit-foo"}}}''),
          (''index.json'',
           ''{"webkit":{"from":{"2023":"platform/webkit--from-2023.json","2024":"platform/webkit--from-2024.json"},"last":{"1 year":"platform/webkit--last-0001.json","2 year":"platform/webkit--last-0002.json"}}}'')]\<close>
    by code_simp
  show ?thesis
    unfolding main_def registry_by_vendor_def
    by (simp only: loaded_by_vendor [OF assms] site run option.case fsnode.case)
qed

theorem end_to_end_by_vendor_witness:
  \<open>example_parse ''{"foo":"-webkit-foo"}'' = Some (JObj [(''foo'', JStr ''-webkit-foo'')])
   \<and> example_parse ''{"bar":"-webkit-bar"}'' = Some (JObj [(''bar'', JStr ''-webkit-bar'')])
   \<and> map_of (case main example_parse (Some registry_by_vendor) (Some (Dir [])) of Inr written \<Rightarrow> written | Inl e \<Rightarrow> [])
        ''platform/webkit--from-2024.json'' = Some ''{"classes":{"bar":{"safari":"-webkit-bar"}}}''\<close>
proof -
  have h1: \<open>example_parse ''{"foo":"-webkit-foo"}'' = Some (JObj [(''foo'', JStr ''-webkit-foo'')])\<close>
    by (simp add: example_parse_def)
  have h2: \<open>example_parse ''{"bar":"-webkit-bar"}'' = Some (JObj [(''bar'', JStr ''-webkit-bar'')])\<close>
    by (simp add: example_parse_def)
  show ?thesis
    using h1 h2 by (simp add: end_to_end_by_vendor [OF h1 h2])
qed

end
